theory Spec2Isabelle
  imports Main "HOL-Library.Sublist" "HOL-Library.Multiset"
    "HOL-Library.Product_Lexorder" "HOL-Library.List_Lexorder"
begin

section \<open>Text\<close>

text \<open>
  A Python \<open>str\<close> is a sequence of Unicode code points; it is modelled as a list of
  natural numbers, one per code point. ASCII literals are written
  \<open>map of_char ''...''\<close>; the backslash is code point 92, the braces are 123 and 125.
\<close>

type_synonym ustr = "nat list"

text \<open>
  \<open>s.replace(old, new)\<close>: every non-overlapping occurrence of \<open>old\<close>, scanning from the
  left. With an empty \<open>old\<close> Python puts \<open>new\<close> before every character and at the end.
\<close>

fun str_replace :: "'a list \<Rightarrow> 'a list \<Rightarrow> 'a list \<Rightarrow> 'a list" where
  "str_replace old new [] = (if old = [] then new else [])"
| "str_replace old new (c # cs) =
     (if old = [] then new @ c # str_replace old new cs
      else if prefix old (c # cs) then new @ str_replace old new (drop (length old - 1) cs)
      else c # str_replace old new cs)"

section \<open>The tables of \<open>bib_to_html.py\<close>\<close>

text \<open>\<open>_ACCENT_COMBINING\<close>: accent code to combining mark.\<close>

definition ACCENT_COMBINING :: "(nat \<times> nat) list" where
  "ACCENT_COMBINING =
    [(34, 0x308),   \<comment> \<open>double quote: diaeresis\<close>
     (39, 0x301),   \<comment> \<open>apostrophe: acute\<close>
     (96, 0x300),   \<comment> \<open>backtick: grave\<close>
     (94, 0x302),   \<comment> \<open>caret: circumflex\<close>
     (126, 0x303),  \<comment> \<open>tilde\<close>
     (99, 0x327),   \<comment> \<open>c: cedilla\<close>
     (107, 0x328),  \<comment> \<open>k: ogonek\<close>
     (72, 0x30B),   \<comment> \<open>H: double acute\<close>
     (114, 0x30A),  \<comment> \<open>r: ring above\<close>
     (61, 0x304),   \<comment> \<open>equals: macron\<close>
     (46, 0x307),   \<comment> \<open>period: dot above\<close>
     (117, 0x306),  \<comment> \<open>u: breve\<close>
     (118, 0x30C),  \<comment> \<open>v: caron\<close>
     (100, 0x323),  \<comment> \<open>d: dot below\<close>
     (98, 0x331)]   \<comment> \<open>b: macron below\<close>"

text \<open>
  \<open>_SPECIAL_MACROS\<close>, in the insertion order of the dictionary, which is the order in
  which the loop of \<open>latex_to_unicode\<close> visits it.
\<close>

definition SPECIAL_MACROS :: "(ustr \<times> ustr) list" where
  "SPECIAL_MACROS =
    [(92 # map of_char ''ss'', [0xDF]), (92 # map of_char ''SS'', [0x1E9E]),
     (92 # map of_char ''ae'', [0xE6]), (92 # map of_char ''AE'', [0xC6]),
     (92 # map of_char ''oe'', [0x153]), (92 # map of_char ''OE'', [0x152]),
     (92 # map of_char ''aa'', [0xE5]), (92 # map of_char ''AA'', [0xC5]),
     (92 # map of_char ''o'', [0xF8]), (92 # map of_char ''O'', [0xD8]),
     (92 # map of_char ''l'', [0x142]), (92 # map of_char ''L'', [0x141])]"

text \<open>
  \<open>_DASH_QUOTES\<close>: each pattern is a literal, so \<open>pat.sub(repl, s)\<close> is the replacement of
  its non-overlapping occurrences from the left.
\<close>

definition DASH_QUOTES :: "(ustr \<times> ustr) list" where
  "DASH_QUOTES =
    [(map of_char ''---'', [0x2014]),
     (map of_char ''--'', [0x2013]),
     ([96, 96], [0x201C]),
     ([39, 39], [0x201D])]"

section \<open>\<open>latex_to_unicode\<close>\<close>

text \<open>The character class of accent codes of both accent patterns, and \<open>[A-Za-z]\<close>.\<close>

definition is_accent_code :: "nat \<Rightarrow> bool" where
  "is_accent_code c \<longleftrightarrow>
     c \<in> set [34, 39, 96, 94, 126, 99, 107, 72, 114, 61, 46, 117, 118, 100, 98]"

definition is_ascii_letter :: "nat \<Rightarrow> bool" where
  "is_ascii_letter c \<longleftrightarrow> (65 \<le> c \<and> c \<le> 90) \<or> (97 \<le> c \<and> c \<le> 122)"

text \<open>
  The inner function \<open>_accent_braced\<close>, applied to the two groups of a match: the base
  letter, then the combining mark (nothing when the table has no entry).
\<close>

definition accent_braced :: "nat \<Rightarrow> nat \<Rightarrow> ustr" where
  "accent_braced accent base =
     base # (case map_of ACCENT_COMBINING accent of None \<Rightarrow> [] | Some combining \<Rightarrow> [combining])"

text \<open>
  \<open>re.sub\<close> with the braced pattern (backslash, accent code, opening brace, letter,
  closing brace): the pattern has a fixed length of five, so the scan tries it at each
  position from the left and resumes after a match.
\<close>

fun sub_accent_braced :: "ustr \<Rightarrow> ustr" where
  "sub_accent_braced (b # a # l # c # r # rest) =
     (if b = 92 \<and> is_accent_code a \<and> l = 123 \<and> is_ascii_letter c \<and> r = 125
      then accent_braced a c @ sub_accent_braced rest
      else b # sub_accent_braced (a # l # c # r # rest))"
| "sub_accent_braced s = s"

text \<open>\<open>re.sub\<close> with the unbraced pattern (backslash, accent code, letter).\<close>

fun sub_accent_unbraced :: "ustr \<Rightarrow> ustr" where
  "sub_accent_unbraced (b # a # c # rest) =
     (if b = 92 \<and> is_accent_code a \<and> is_ascii_letter c
      then accent_braced a c @ sub_accent_unbraced rest
      else b # sub_accent_unbraced (a # c # rest))"
| "sub_accent_unbraced s = s"

definition special_macros :: "ustr \<Rightarrow> ustr" where
  "special_macros s = foldl (\<lambda>s (macro, uni). str_replace macro uni s) s SPECIAL_MACROS"

definition strip_braces :: "ustr \<Rightarrow> ustr" where
  "strip_braces s = str_replace [125] [] (str_replace [123] [] s)"

definition dash_quotes :: "ustr \<Rightarrow> ustr" where
  "dash_quotes s = foldl (\<lambda>s (pat, repl). str_replace pat repl s) s DASH_QUOTES"

text \<open>
  \<open>unicodedata.normalize('NFC', s)\<close> is the standard library's; it is the parameter
  \<open>nfc\<close> of the model, so every theorem holds for whatever the library computes.
\<close>

definition latex_to_unicode :: "(ustr \<Rightarrow> ustr) \<Rightarrow> ustr \<Rightarrow> ustr" where
  "latex_to_unicode nfc text =
     (if text = [] then text
      else nfc (dash_quotes (strip_braces
             (sub_accent_unbraced (sub_accent_braced (special_macros text))))))"

text \<open>
  The text that \<open>latex_to_unicode\<close> hands to NFC, for a text that is not empty: the steps
  of lines 63 to 84 in their order.
\<close>

definition latex_steps :: "ustr \<Rightarrow> ustr" where
  "latex_steps text =
     dash_quotes (strip_braces (sub_accent_unbraced (sub_accent_braced (special_macros text))))"

section \<open>Whitespace, trimming, case\<close>

text \<open>
  The code points for which \<open>str.isspace\<close> holds; the class \<open>\s\<close> of a \<open>str\<close> pattern
  and \<open>str.strip()\<close> use the same set.
\<close>

definition is_space :: "nat \<Rightarrow> bool" where
  "is_space c \<longleftrightarrow>
     (9 \<le> c \<and> c \<le> 13) \<or> (28 \<le> c \<and> c \<le> 32) \<or> c = 0x85 \<or> c = 0xA0 \<or> c = 0x1680
     \<or> (0x2000 \<le> c \<and> c \<le> 0x200A) \<or> c = 0x2028 \<or> c = 0x2029 \<or> c = 0x202F
     \<or> c = 0x205F \<or> c = 0x3000"

text \<open>\<open>s.strip(chars)\<close> and \<open>s.strip()\<close>.\<close>

definition strip_chars :: "nat list \<Rightarrow> ustr \<Rightarrow> ustr" where
  "strip_chars chars s =
     rev (dropWhile (\<lambda>c. c \<in> set chars) (rev (dropWhile (\<lambda>c. c \<in> set chars) s)))"

definition py_strip :: "ustr \<Rightarrow> ustr" where
  "py_strip s = rev (dropWhile is_space (rev (dropWhile is_space s)))"

text \<open>
  \<open>str.lower()\<close> on the ASCII letters, other code points unchanged. The source uses
  \<open>lower()\<close> only to test \<open>startswith('http')\<close> and \<open>== 'arxiv'\<close>; no code point outside
  ASCII lowers to a letter of either word, so the two tests come out as in Python.
\<close>

definition ascii_lower :: "ustr \<Rightarrow> ustr" where
  "ascii_lower s = map (\<lambda>c. if 65 \<le> c \<and> c \<le> 90 then c + 32 else c) s"

text \<open>\<open>sep.join(parts)\<close>.\<close>

fun join :: "'a list \<Rightarrow> 'a list list \<Rightarrow> 'a list" where
  "join sep [] = []"
| "join sep [p] = p"
| "join sep (p # q # ps) = p @ sep @ join sep (q # ps)"

text \<open>
  \<open>html.escape(s)\<close> with \<open>quote=True\<close>: the ampersand first, then the angle brackets and
  both quotes, each by \<open>str.replace\<close>.
\<close>

definition html_escape :: "ustr \<Rightarrow> ustr" where
  "html_escape s =
     str_replace [39] (map of_char ''&#x27;'')
       (str_replace [34] (map of_char ''&quot;'')
         (str_replace [62] (map of_char ''&gt;'')
           (str_replace [60] (map of_char ''&lt;'')
             (str_replace [38] (map of_char ''&amp;'') s))))"

section \<open>\<open>format_authors\<close>\<close>

text \<open>
  The pattern \<open>\s+and\s+\<close> under \<open>re.IGNORECASE\<close>, tried at the start of a text: the length
  of the match, if any. Both \<open>\s+\<close> are greedy and what follows each cannot start with a
  space, so the first takes the whole run of spaces before the word and the second the
  whole run after it. Only the ASCII letters match a, n and d when case is ignored.
\<close>

definition match_and :: "ustr \<Rightarrow> nat option" where
  "match_and s =
     (if takeWhile is_space s = [] then None
      else (case dropWhile is_space s of
              a # n # d # rest \<Rightarrow>
                if (a = 97 \<or> a = 65) \<and> (n = 110 \<or> n = 78) \<and> (d = 100 \<or> d = 68)
                   \<and> takeWhile is_space rest \<noteq> []
                then Some (length (takeWhile is_space s) + 3 + length (takeWhile is_space rest))
                else None
            | _ \<Rightarrow> None))"

text \<open>
  \<open>re.split\<close> with that pattern: the text between the matches, found from the left; a
  match is never empty, so after a match of length \<open>n\<close> at \<open>c # cs\<close> the scan resumes at
  \<open>drop (n - 1) cs\<close>.
\<close>

fun split_and :: "ustr \<Rightarrow> ustr list" where
  "split_and [] = [[]]"
| "split_and (c # cs) =
     (case match_and (c # cs) of
        Some n \<Rightarrow> [] # split_and (drop (n - 1) cs)
      | None \<Rightarrow> (case split_and cs of [] \<Rightarrow> [[c]] | p # ps \<Rightarrow> (c # p) # ps))"

text \<open>\<open>re.sub(r"\s+", " ", p)\<close>: every maximal run of spaces becomes one space.\<close>

fun collapse_ws :: "ustr \<Rightarrow> ustr" where
  "collapse_ws [] = []"
| "collapse_ws (c # cs) =
     (if is_space c then 32 # collapse_ws (drop (length (takeWhile is_space cs)) cs)
      else c # collapse_ws cs)"

text \<open>The body of the loop over the parts, after the empty parts have been skipped.\<close>

definition format_name :: "(ustr \<Rightarrow> ustr) \<Rightarrow> ustr \<Rightarrow> ustr" where
  "format_name nfc p0 =
     (let p = py_strip (collapse_ws (latex_to_unicode nfc p0)) in
      if 44 \<in> set p then
        (let left = py_strip (takeWhile (\<lambda>c. c \<noteq> 44) p);
             right = py_strip (tl (dropWhile (\<lambda>c. c \<noteq> 44) p))
         in if left \<noteq> [] \<and> right \<noteq> [] then right @ [32] @ left else p)
      else p)"

definition format_authors :: "(ustr \<Rightarrow> ustr) \<Rightarrow> ustr \<Rightarrow> ustr" where
  "format_authors nfc authors_raw =
     (if authors_raw = [] then map of_char ''No author specified''
      else
        (let parts = split_and (py_strip authors_raw);
             norm_parts = map (format_name nfc) (filter (\<lambda>p. p \<noteq> []) (map py_strip parts))
         in if norm_parts \<noteq> [] then join (map of_char '', '') (map html_escape norm_parts)
            else map of_char ''No author specified''))"

text \<open>
  To state where \<open>split_and\<close> cuts: a separator is a run of spaces, the word \<open>and\<close> in any
  case, and a run of spaces up to its end; \<open>and_separators\<close> lists the matches that the
  scan of \<open>split_and\<close> finds; \<open>interleave\<close> puts parts and separators back together.
\<close>

definition is_and_separator :: "ustr \<Rightarrow> bool" where
  "is_and_separator x \<longleftrightarrow>
     takeWhile is_space x \<noteq> []
     \<and> (case dropWhile is_space x of
          a # n # d # w \<Rightarrow>
            (a = 97 \<or> a = 65) \<and> (n = 110 \<or> n = 78) \<and> (d = 100 \<or> d = 68)
            \<and> w \<noteq> [] \<and> list_all is_space w
        | _ \<Rightarrow> False)"

fun and_separators :: "ustr \<Rightarrow> ustr list" where
  "and_separators [] = []"
| "and_separators (c # cs) =
     (case match_and (c # cs) of
        Some n \<Rightarrow> take n (c # cs) # and_separators (drop (n - 1) cs)
      | None \<Rightarrow> and_separators cs)"

fun interleave :: "'a list list \<Rightarrow> 'a list list \<Rightarrow> 'a list" where
  "interleave [] seps = []"
| "interleave (p # ps) [] = p @ interleave ps []"
| "interleave (p # ps) (x # xs) = p @ x @ interleave ps xs"

section \<open>Records and their derived fields\<close>

text \<open>
  An entry of \<open>bib_database.entries\<close> is a dictionary from field names to strings.
  \<open>get_or entry k d\<close> is \<open>entry.get(k, d)\<close>.
\<close>

type_synonym entry = "ustr \<rightharpoonup> ustr"

definition get_or :: "entry \<Rightarrow> string \<Rightarrow> ustr \<Rightarrow> ustr" where
  "get_or entry k d = (case entry (map of_char k) of Some v \<Rightarrow> v | None \<Rightarrow> d)"

text \<open>
  The link of an entry: \<open>entry.get('url') or None\<close>, replaced whenever \<open>doi\<close> is present
  and not empty.
\<close>

definition link_url :: "entry \<Rightarrow> ustr option" where
  "link_url entry =
     (let link_url = (case entry (map of_char ''url'') of
                        Some u \<Rightarrow> if u \<noteq> [] then Some u else None
                      | None \<Rightarrow> None)
      in case entry (map of_char ''doi'') of
           None \<Rightarrow> link_url
         | Some doi \<Rightarrow>
             if doi \<noteq> [] then
               (if \<not> prefix (map of_char ''http'') (ascii_lower doi)
                then Some (map of_char ''https://doi.org/'' @ doi)
                else Some doi)
             else link_url)"

definition title_html :: "(ustr \<Rightarrow> ustr) \<Rightarrow> entry \<Rightarrow> ustr" where
  \<open>title_html nfc entry =
     (let title = html_escape (latex_to_unicode nfc
                    (get_or entry ''title'' (map of_char ''No title specified'')))
      in case link_url entry of
           Some url \<Rightarrow>
             map of_char ''<a class="pub-title" href="'' @ html_escape url
             @ map of_char ''" target="_blank" rel="noopener noreferrer">'' @ title
             @ map of_char ''</a>''
         | None \<Rightarrow> map of_char ''<span class="pub-title">'' @ title @ map of_char ''</span>'')\<close>

text \<open>
  The venue, in the order of the source: \<open>journal\<close>, else \<open>booktitle\<close>, else empty, through
  \<open>latex_to_unicode\<close>; the arXiv text when that is empty (\<open>entry.get('eprint')\<close> formats
  as \<open>None\<close> when the field is absent); the year taken out and the ends trimmed when
  venue and year are both non-empty. \<open>venue_text\<close> is the value before \<open>html.escape\<close>.
\<close>

definition venue_raw :: "entry \<Rightarrow> ustr" where
  "venue_raw entry =
     (if get_or entry ''journal'' [] \<noteq> [] then get_or entry ''journal'' []
      else if get_or entry ''booktitle'' [] \<noteq> [] then get_or entry ''booktitle'' []
      else [])"

definition venue_named :: "(ustr \<Rightarrow> ustr) \<Rightarrow> entry \<Rightarrow> ustr" where
  "venue_named nfc entry =
     (let venue = latex_to_unicode nfc (venue_raw entry) in
      if venue = [] \<and> ascii_lower (get_or entry ''archivePrefix'' []) = map of_char ''arxiv''
      then map of_char ''arXiv:''
           @ (case entry (map of_char ''eprint'') of None \<Rightarrow> map of_char ''None'' | Some e \<Rightarrow> e)
      else venue)"

definition venue_text :: "(ustr \<Rightarrow> ustr) \<Rightarrow> entry \<Rightarrow> ustr" where
  "venue_text nfc entry =
     (let venue = venue_named nfc entry; entry_year = get_or entry ''year'' [] in
      if venue \<noteq> [] \<and> entry_year \<noteq> []
      then strip_chars (map of_char '' ,.'') (str_replace entry_year [] venue)
      else venue)"

definition entry_venue :: "(ustr \<Rightarrow> ustr) \<Rightarrow> entry \<Rightarrow> ustr" where
  "entry_venue nfc entry = html_escape (venue_text nfc entry)"

definition render_entry :: "(ustr \<Rightarrow> ustr) \<Rightarrow> entry \<Rightarrow> ustr" where
  \<open>render_entry nfc entry =
     map of_char ''<li>'' @ title_html nfc entry
     @ map of_char ''<div class="pub-authors">''
     @ format_authors nfc (get_or entry ''author'' (map of_char ''No author specified''))
     @ map of_char ''</div><div class="pub-venue">'' @ entry_venue nfc entry
     @ map of_char ''</div></li>''\<close>

section \<open>Grouping, ordering and numbering\<close>

text \<open>
  \<open>grouped_by_year\<close> is a \<open>defaultdict(list)\<close>: an association list in the order in which
  the keys were first seen, each key with its entries in input order.
\<close>

fun group_add :: "ustr \<Rightarrow> entry \<Rightarrow> (ustr \<times> entry list) list \<Rightarrow> (ustr \<times> entry list) list" where
  "group_add y e [] = [(y, [e])]"
| "group_add y e ((k, es) # g) =
     (if k = y then (k, es @ [e]) # g else (k, es) # group_add y e g)"

definition grouped_by_year :: "entry list \<Rightarrow> (ustr \<times> entry list) list" where
  "grouped_by_year entries =
     foldl (\<lambda>g e. group_add (get_or e ''year'' (map of_char ''Undated'')) e g) [] entries"

text \<open>
  \<open>_year_sort_key\<close>. The built-in \<open>int\<close> is the parameter \<open>to_int\<close> (\<open>None\<close> when it
  raises). The tuples \<open>(0, -int(y))\<close> and \<open>(1, str(y))\<close> are compared on the first
  component and, when it is equal, on the second, which then has the same type in both;
  a triple with the unused component fixed orders them the same way.
\<close>

definition year_sort_key :: "(ustr \<Rightarrow> int option) \<Rightarrow> ustr \<Rightarrow> nat \<times> int \<times> ustr" where
  "year_sort_key to_int y = (case to_int y of Some n \<Rightarrow> (0, - n, []) | None \<Rightarrow> (1, 0, y))"

definition sorted_years :: "(ustr \<Rightarrow> int option) \<Rightarrow> ustr list \<Rightarrow> ustr list" where
  "sorted_years to_int keys = sort_key (year_sort_key to_int) keys"

text \<open>\<open>str(n)\<close> for an integer, as the f-string formats the counter.\<close>

fun str_of_nat :: "nat \<Rightarrow> ustr" where
  "str_of_nat n = (if n < 10 then [48 + n] else str_of_nat (n div 10) @ [48 + n mod 10])"

definition str_of_int :: "int \<Rightarrow> ustr" where
  "str_of_int i = (if i < 0 then 45 # str_of_nat (nat (- i)) else str_of_nat (nat i))"

text \<open>
  One pass of the loop over the sorted years gives one list of the page: its heading, the
  value of the counter when the list is opened, and the entries of the year sorted by
  the raw author field. The counter goes down by the size of the list.
\<close>

record year_list =
  heading :: ustr
  start :: int
  papers_in_year :: "entry list"

fun year_lists :: "(ustr \<times> entry list) list \<Rightarrow> int \<Rightarrow> ustr list \<Rightarrow> year_list list" where
  "year_lists groups current_number [] = []"
| "year_lists groups current_number (year # years) =
     (let papers = sort_key (\<lambda>x. get_or x ''author'' [])
                     (case map_of groups year of None \<Rightarrow> [] | Some es \<Rightarrow> es)
      in \<lparr>heading = year, start = current_number, papers_in_year = papers\<rparr>
         # year_lists groups (current_number - int (length papers)) years)"

definition publication_lists :: "(ustr \<Rightarrow> int option) \<Rightarrow> entry list \<Rightarrow> year_list list" where
  "publication_lists to_int entries =
     (let groups = grouped_by_year entries;
          total_pubs = sum_list (map (\<lambda>(k, v). length v) groups)
      in year_lists groups (int total_pubs) (sorted_years to_int (map fst groups)))"

definition list_lines :: "(ustr \<Rightarrow> ustr) \<Rightarrow> year_list \<Rightarrow> ustr list" where
  \<open>list_lines nfc yl =
     [map of_char ''<h3 class="year-header">'' @ heading yl @ map of_char ''</h3>'',
      map of_char ''<ol class="publication-list" reversed start="'' @ str_of_int (start yl)
        @ map of_char ''">'']
     @ map (render_entry nfc) (papers_in_year yl)
     @ [map of_char ''</ol>'']\<close>

definition html_lines :: "(ustr \<Rightarrow> ustr) \<Rightarrow> (ustr \<Rightarrow> int option) \<Rightarrow> entry list \<Rightarrow> ustr list" where
  "html_lines nfc to_int entries = concat (map (list_lines nfc) (publication_lists to_int entries))"

text \<open>
  The numbers a browser shows beside the items of a list that is \<open>reversed\<close> and starts at
  \<open>start\<close>: they count down from \<open>start\<close>, one per item.
\<close>

definition item_numbers :: "year_list \<Rightarrow> int list" where
  "item_numbers yl = map (\<lambda>i. start yl - int i) [0..<length (papers_in_year yl)]"

text \<open>The number of entries the loop finds under a year.\<close>

definition group_size :: "(ustr \<times> entry list) list \<Rightarrow> ustr \<Rightarrow> nat" where
  "group_size g y = length (case map_of g y of None \<Rightarrow> [] | Some es \<Rightarrow> es)"

section \<open>\<open>main\<close>\<close>

text \<open>
  What \<open>main\<close> meets outside the program, one field for each place where a call can
  raise; an error is the text that \<open>str(e)\<close> gives.
  \<^item> \<open>bib_input\<close>, \<open>template_input\<close>: opening and reading the file, its content or the
    error;
  \<^item> \<open>render_error\<close>: an exception raised while the lines are built (lines 123 to 196).
    Over entries that map strings to strings the operations there raise nothing of their
    own (the \<open>ValueError\<close> of \<open>int\<close> is caught inside \<open>_year_sort_key\<close>); the field stands
    for what the interpreter raises on its own account, such as \<open>MemoryError\<close>;
  \<^item> \<open>output_open_error\<close>: \<open>open(OUTPUT_FILE, 'w')\<close> raises, and the file is as it was;
  \<^item> \<open>output_write_error\<close>: the file was opened, which empties it, and writing or closing
    raises after the given number of code points reached the file;
  \<^item> \<open>output_before\<close>: the content of the output file before the run, if it exists;
  \<^item> \<open>print_error\<close>: what \<open>print\<close> raises for a given line, if anything. Both status lines
    begin with a sign outside ASCII, which a standard output with a narrower encoding
    refuses with \<open>UnicodeEncodeError\<close> before anything is written.

  \<open>bibtexparser.load\<close> is the parameter \<open>load\<close>: the entries, or the error it raises.
\<close>

record environment =
  bib_input :: "ustr + ustr"
  render_error :: "ustr option"
  template_input :: "ustr + ustr"
  output_open_error :: "ustr option"
  output_write_error :: "(ustr \<times> nat) option"
  output_before :: "ustr option"
  print_error :: "ustr \<Rightarrow> ustr option"

text \<open>
  What a run leaves: the lines it printed, the exception that left \<open>main\<close> uncaught, if
  any, and the content of the output file.
\<close>

record outcome =
  printed :: "ustr list"
  escaped :: "ustr option"
  output_after :: "ustr option"

definition PLACEHOLDER :: ustr where
  "PLACEHOLDER = map of_char ''PLACEHOLDER''"

definition OUTPUT_FILE :: ustr where
  "OUTPUT_FILE = map of_char ''publications.html''"

text \<open>The line of the \<open>except Exception\<close> clause; the first code point is the cross mark.\<close>

definition error_line :: "ustr \<Rightarrow> ustr" where
  "error_line e = 0x274C # map of_char '' An unexpected error occurred: '' @ e"

text \<open>The line printed at the end of the \<open>try\<close> block; it starts with the check mark.\<close>

definition success_line :: ustr where
  "success_line = 0x2705 # map of_char '' Success! '' @ [39] @ OUTPUT_FILE @ [39]
                  @ map of_char '' has been updated.''"

text \<open>
  The \<open>except Exception as e\<close> clause, entered with the exception \<open>e\<close> when the output file
  holds \<open>out\<close>: its only statement is the \<open>print\<close>, and an exception raised there is not
  caught by anything.
\<close>

definition except_clause :: "environment \<Rightarrow> ustr \<Rightarrow> ustr option \<Rightarrow> outcome" where
  "except_clause env e out =
     (case print_error env (error_line e) of
        None \<Rightarrow> \<lparr>printed = [error_line e], escaped = None, output_after = out\<rparr>
      | Some e' \<Rightarrow> \<lparr>printed = [], escaped = Some e', output_after = out\<rparr>)"

definition generated_content :: "(ustr \<Rightarrow> ustr) \<Rightarrow> (ustr \<Rightarrow> int option) \<Rightarrow> entry list \<Rightarrow> ustr" where
  "generated_content nfc to_int entries = join [10] (html_lines nfc to_int entries)"

text \<open>
  The \<open>try\<close> block, statement by statement; the success line is printed inside it, so an
  exception of that \<open>print\<close> reaches the \<open>except\<close> clause like any other.
\<close>

definition main ::
  "(ustr \<Rightarrow> ustr) \<Rightarrow> (ustr \<Rightarrow> int option) \<Rightarrow> (ustr \<Rightarrow> ustr + entry list) \<Rightarrow> environment \<Rightarrow> outcome"
where
  "main nfc to_int load env =
     (case bib_input env of
        Inl e \<Rightarrow> except_clause env e (output_before env)
      | Inr bibfile \<Rightarrow>
     (case load bibfile of
        Inl e \<Rightarrow> except_clause env e (output_before env)
      | Inr entries \<Rightarrow>
     (case render_error env of
        Some e \<Rightarrow> except_clause env e (output_before env)
      | None \<Rightarrow>
     (let content = generated_content nfc to_int entries in
      case template_input env of
        Inl e \<Rightarrow> except_clause env e (output_before env)
      | Inr template_html \<Rightarrow>
     (let output_html = str_replace PLACEHOLDER content template_html in
      case output_open_error env of
        Some e \<Rightarrow> except_clause env e (output_before env)
      | None \<Rightarrow>
     (case output_write_error env of
        Some (e, k) \<Rightarrow> except_clause env e (Some (take k output_html))
      | None \<Rightarrow>
     (case print_error env success_line of
        Some e \<Rightarrow> except_clause env e (Some output_html)
      | None \<Rightarrow>
          \<lparr>printed = [success_line], escaped = None, output_after = Some output_html\<rparr>)))))))"

section \<open>Accent commands\<close>

lemma accent_code_cases:
  assumes "is_accent_code a"
  obtains "a = 34" | "a = 39" | "a = 96" | "a = 94" | "a = 126" | "a = 99" | "a = 107"
    | "a = 72" | "a = 114" | "a = 61" | "a = 46" | "a = 117" | "a = 118" | "a = 100" | "a = 98"
  using assms unfolding is_accent_code_def by auto

text \<open>
  Claim C1. For every accent code of the supported set and every ASCII letter, the braced
  form (backslash, code, letter in braces) and the unbraced form (backslash, code, letter)
  give the same output: the text handed to the final NFC step is, for both, the letter
  followed by exactly one combining mark, the one the table gives for the code (neither
  form is rewritten a second time), and the output is what NFC makes of that pair, so
  the precomposed character whenever NFC composes the pair into one.
\<close>

theorem accent_forms_agree:
  assumes "is_accent_code a" and "is_ascii_letter l"
  shows "\<exists>m. map_of ACCENT_COMBINING a = Some m
           \<and> latex_to_unicode nfc [92, a, 123, l, 125] = nfc [l, m]
           \<and> latex_to_unicode nfc [92, a, l] = nfc [l, m]
           \<and> (\<forall>p. nfc [l, m] = [p] \<longrightarrow>
                 latex_to_unicode nfc [92, a, 123, l, 125] = [p]
               \<and> latex_to_unicode nfc [92, a, l] = [p])"
proof -
  have l: "l \<noteq> 92" "l \<noteq> 123" "l \<noteq> 125" "l \<noteq> 45" "l \<noteq> 96" "l \<noteq> 39"
    using assms(2) by (auto simp: is_ascii_letter_def)
  from assms(1) show ?thesis
    by (rule accent_code_cases)
      (simp_all add: latex_to_unicode_def special_macros_def SPECIAL_MACROS_def
        strip_braces_def dash_quotes_def DASH_QUOTES_def accent_braced_def
        ACCENT_COMBINING_def is_accent_code_def assms(2) l)
qed

text \<open>
  The diaeresis on capital O (code point 79, mark U+0308), with an NFC that composes the
  pair into U+00D6: both forms give the precomposed character.
\<close>

theorem accent_forms_agree_witness:
  "latex_to_unicode (\<lambda>s. if s = [79, 0x308] then [0xD6] else s) [92, 34, 123, 79, 125] = [0xD6]
   \<and> latex_to_unicode (\<lambda>s. if s = [79, 0x308] then [0xD6] else s) [92, 34, 79] = [0xD6]"
  using accent_forms_agree [of 34 79 "\<lambda>s. if s = [79, 0x308] then [0xD6] else s"]
  by (simp add: is_accent_code_def is_ascii_letter_def ACCENT_COMBINING_def)

section \<open>The link of an entry\<close>

text \<open>
  Claim C2. When the \<open>doi\<close> field is present and not empty, the link is decided by the doi
  alone, whatever the \<open>url\<close> field holds: the doi itself when it begins, case ignored,
  with \<open>http\<close> or \<open>https\<close>, and \<open>https://doi.org/\<close> followed by the doi otherwise.
\<close>

theorem doi_overrides_url:
  assumes "entry (map of_char ''doi'') = Some doi" and "doi \<noteq> []"
  shows "link_url entry =
           Some (if prefix (map of_char ''http'') (ascii_lower doi)
                    \<or> prefix (map of_char ''https'') (ascii_lower doi)
                 then doi else map of_char ''https://doi.org/'' @ doi)"
proof -
  have "prefix (map of_char ''https'') s \<Longrightarrow> prefix (map of_char ''http'') s" for s :: ustr
    by (auto simp: prefix_def)
  then show ?thesis using assms by (auto simp: link_url_def)
qed

text \<open>
  A record with url \<open>http://example.com\<close> and doi \<open>10.1/x\<close> links to
  \<open>https://doi.org/10.1/x\<close>; a doi that is already a link, in capitals, is kept as it is.
\<close>

theorem doi_overrides_url_witness:
  "link_url [map of_char ''url'' \<mapsto> map of_char ''http://example.com'',
             map of_char ''doi'' \<mapsto> map of_char ''10.1/x'']
     = Some (map of_char ''https://doi.org/10.1/x'')
   \<and> link_url [map of_char ''url'' \<mapsto> map of_char ''http://example.com'',
               map of_char ''doi'' \<mapsto> map of_char ''HTTPS://doi.org/10.1/x'']
     = Some (map of_char ''HTTPS://doi.org/10.1/x'')"
  using doi_overrides_url [of "[map of_char ''url'' \<mapsto> map of_char ''http://example.com'',
             map of_char ''doi'' \<mapsto> map of_char ''10.1/x'']" "map of_char ''10.1/x''"]
    doi_overrides_url [of "[map of_char ''url'' \<mapsto> map of_char ''http://example.com'',
             map of_char ''doi'' \<mapsto> map of_char ''HTTPS://doi.org/10.1/x'']"
      "map of_char ''HTTPS://doi.org/10.1/x''"]
  by (simp add: ascii_lower_def)

section \<open>The venue of an entry\<close>

lemma str_replace_absent:
  "\<not> sublist old s \<Longrightarrow> str_replace old new s = s"
proof (induction s)
  case Nil
  then show ?case by auto
next
  case (Cons c cs)
  then have "old \<noteq> []" "\<not> prefix old (c # cs)" "\<not> sublist old cs"
    by (auto simp: sublist_Cons_right)
  with Cons.IH show ?case by simp
qed

lemma latex_to_unicode_empty: "latex_to_unicode nfc [] = []"
  by (simp add: latex_to_unicode_def)

text \<open>
  Claim C10. The arXiv text is synthesized only when \<open>entry.get('archivePrefix', '')\<close>
  finds a value, that is, when the entry has the key spelled with a capital P. The
  entries come from \<open>bibtexparser.load\<close>, which lower-cases the names of the fields: a
  record written with \<open>archivePrefix = {arXiv}\<close> reaches the loop with the key
  \<open>archiveprefix\<close>. For the record below, delivered that way, with no journal, no
  booktitle and no eprint, line 183 finds nothing under \<open>archivePrefix\<close>, the branch of
  line 184 is not taken and the rendered venue is empty, where the claim expects
  \<open>arXiv:None\<close>. The venue is built from an empty text, which \<open>latex_to_unicode\<close> returns
  before NFC is reached, so the choice of \<open>nfc\<close> plays no part.
\<close>

theorem arxiv_record_venue_empty:
  "venue_raw [map of_char ''title'' \<mapsto> map of_char ''T'',
       map of_char ''archiveprefix'' \<mapsto> map of_char ''arXiv'',
       map of_char ''year'' \<mapsto> map of_char ''2023''] = []
   \<and> ascii_lower (map of_char ''arXiv'') = map of_char ''arxiv''
   \<and> [map of_char ''title'' \<mapsto> map of_char ''T'',
       map of_char ''archiveprefix'' \<mapsto> map of_char ''arXiv'',
       map of_char ''year'' \<mapsto> map of_char ''2023''] (map of_char ''eprint'') = None
   \<and> entry_venue id [map of_char ''title'' \<mapsto> map of_char ''T'',
       map of_char ''archiveprefix'' \<mapsto> map of_char ''arXiv'',
       map of_char ''year'' \<mapsto> map of_char ''2023''] = []
   \<and> entry_venue id [map of_char ''title'' \<mapsto> map of_char ''T'',
       map of_char ''archiveprefix'' \<mapsto> map of_char ''arXiv'',
       map of_char ''year'' \<mapsto> map of_char ''2023''] \<noteq> map of_char ''arXiv:None''"
  by (simp add: get_or_def ascii_lower_def entry_venue_def venue_text_def venue_named_def
      venue_raw_def latex_to_unicode_def html_escape_def)

text \<open>
  The same holds for every entry without the key \<open>archivePrefix\<close>, whatever else it
  holds: without a journal or booktitle its venue is empty.
\<close>

lemma venue_empty_without_capital_key:
  assumes "entry (map of_char ''archivePrefix'') = None" and "venue_raw entry = []"
  shows "entry_venue nfc entry = []"
  using assms
  by (simp add: entry_venue_def venue_text_def venue_named_def get_or_def ascii_lower_def
      latex_to_unicode_empty html_escape_def)

lemma strip_chars_ends:
  assumes "strip_chars chars s \<noteq> []"
  shows "hd (strip_chars chars s) \<notin> set chars \<and> last (strip_chars chars s) \<notin> set chars"
proof -
  let ?P = "\<lambda>c. c \<in> set chars"
  let ?t = "dropWhile ?P s"
  let ?u = "dropWhile ?P (rev ?t)"
  from assms have u: "?u \<noteq> []" by (simp add: strip_chars_def)
  have t: "?t \<noteq> []"
  proof
    assume a: "?t = []"
    have "?u = []" unfolding a by simp
    with u show False by blast
  qed
  have "last (strip_chars chars s) = hd ?u"
    by (simp add: strip_chars_def last_rev)
  moreover have "\<not> ?P (hd ?u)" using u by (rule hd_dropWhile)
  moreover have "hd (strip_chars chars s) = last ?u"
    by (simp add: strip_chars_def hd_rev)
  moreover have "last ?u = last (rev ?t)"
  proof -
    have "rev ?t = takeWhile ?P (rev ?t) @ ?u" by simp
    then show ?thesis using u by (metis last_appendR)
  qed
  moreover have "last (rev ?t) = hd ?t" by (simp add: last_rev)
  moreover have "\<not> ?P (hd ?t)" using t by (rule hd_dropWhile)
  ultimately show ?thesis by simp
qed

lemma str_replace_leftmost:
  assumes "sublist old s" and "old \<noteq> []"
  shows "\<exists>pre post. s = pre @ old @ post \<and> \<not> sublist old (pre @ butlast old)
           \<and> str_replace old new s = pre @ new @ str_replace old new post"
  using assms(1)
proof (induction s)
  case Nil
  with assms(2) show ?case by simp
next
  case (Cons c cs)
  show ?case
  proof (cases "prefix old (c # cs)")
    case True
    then obtain post where post: "c # cs = old @ post" by (auto simp: prefix_def)
    from assms(2) obtain o1 os where old: "old = o1 # os" by (cases old) auto
    with post have cs: "cs = os @ post" by simp
    have "drop (length old - 1) cs = post" by (simp add: old cs)
    then have "str_replace old new (c # cs) = new @ str_replace old new post"
      using True assms(2) by simp
    moreover have "\<not> sublist old (butlast old)"
      using assms(2) sublist_length_le [of old "butlast old"] by (auto simp: old)
    ultimately show ?thesis using post by (intro exI [of _ "[]"] exI [of _ post]) simp
  next
    case False
    with Cons.prems have "sublist old cs" by (simp add: sublist_Cons_right)
    from Cons.IH [OF this] obtain pre post where
      cs: "cs = pre @ old @ post" and no: "\<not> sublist old (pre @ butlast old)"
      and r: "str_replace old new cs = pre @ new @ str_replace old new post" by blast
    have "\<not> prefix old (c # pre @ butlast old)"
    proof
      assume "prefix old (c # pre @ butlast old)"
      moreover have "prefix (c # pre @ butlast old) (c # cs)"
        using assms(2) by (simp add: cs) (metis append_butlast_last_id append.assoc prefixI)
      ultimately show False using False by (metis prefix_order.order_trans)
    qed
    with no have "\<not> sublist old ((c # pre) @ butlast old)"
      by (simp add: sublist_Cons_right)
    moreover have "str_replace old new (c # cs) = (c # pre) @ new @ str_replace old new post"
      using False assms(2) r by simp
    ultimately show ?thesis using cs
      by (intro exI [of _ "c # pre"] exI [of _ post]) simp
  qed
qed

text \<open>
  Claim C8. For a record whose venue (after \<open>latex_to_unicode\<close> and the arXiv fallback)
  and whose year are both non-empty, and whose venue contains the year: the leftmost
  occurrence of the year is cut out, the text after it is treated the same way, and
  spaces, commas and periods are trimmed from both ends of what is left, so the result
  is empty or begins and ends with another character; the rendered venue is that
  text, escaped.
\<close>

theorem venue_year_removed:
  assumes "venue_named nfc entry = v" and "v \<noteq> []"
    and "get_or entry ''year'' [] = y" and "y \<noteq> []" and "sublist y v"
  shows "\<exists>pre post. v = pre @ y @ post \<and> \<not> sublist y (pre @ butlast y)
           \<and> venue_text nfc entry = strip_chars (map of_char '' ,.'') (pre @ str_replace y [] post)
           \<and> entry_venue nfc entry = html_escape (venue_text nfc entry)
           \<and> (venue_text nfc entry = []
               \<or> hd (venue_text nfc entry) \<notin> set (map of_char '' ,.'')
                 \<and> last (venue_text nfc entry) \<notin> set (map of_char '' ,.''))"
proof -
  from str_replace_leftmost [OF assms(5,4), of "[]"] obtain pre post where
    v: "v = pre @ y @ post" and no: "\<not> sublist y (pre @ butlast y)"
    and r: "str_replace y [] v = pre @ str_replace y [] post" by auto
  have vt: "venue_text nfc entry = strip_chars (map of_char '' ,.'') (str_replace y [] v)"
    using assms(1-4) by (simp add: venue_text_def)
  have "venue_text nfc entry = []
          \<or> hd (venue_text nfc entry) \<notin> set (map of_char '' ,.'')
            \<and> last (venue_text nfc entry) \<notin> set (map of_char '' ,.'')"
    unfolding vt using strip_chars_ends by blast
  with v no r vt show ?thesis unfolding entry_venue_def by metis
qed

text \<open>The venue \<open>Proc. of X 2023\<close> with the year \<open>2023\<close> becomes \<open>Proc. of X\<close>.\<close>

theorem venue_year_removed_witness:
  "venue_named id [map of_char ''booktitle'' \<mapsto> map of_char ''Proc. of X 2023'',
       map of_char ''year'' \<mapsto> map of_char ''2023''] = map of_char ''Proc. of X 2023''
   \<and> sublist (map of_char ''2023'') (map of_char ''Proc. of X 2023'')
   \<and> entry_venue id [map of_char ''booktitle'' \<mapsto> map of_char ''Proc. of X 2023'',
       map of_char ''year'' \<mapsto> map of_char ''2023''] = map of_char ''Proc. of X''"
  using venue_year_removed [of id "[map of_char ''booktitle'' \<mapsto> map of_char ''Proc. of X 2023'',
       map of_char ''year'' \<mapsto> map of_char ''2023'']" "map of_char ''Proc. of X 2023''" "map of_char ''2023''"]
  by (simp add: get_or_def entry_venue_def venue_text_def venue_named_def
      venue_raw_def latex_to_unicode_def html_escape_def strip_chars_def sublist_Cons_right
      special_macros_def SPECIAL_MACROS_def strip_braces_def dash_quotes_def DASH_QUOTES_def)

section \<open>The order of the years\<close>

lemma year_key_le_numeric:
  "to_int a = Some n \<Longrightarrow> to_int b = Some m \<Longrightarrow>
     year_sort_key to_int a \<le> year_sort_key to_int b \<longleftrightarrow> m \<le> n"
  by (auto simp: year_sort_key_def less_eq_prod_def)

lemma year_key_le_text:
  "to_int a = None \<Longrightarrow> to_int b = None \<Longrightarrow>
     year_sort_key to_int a \<le> year_sort_key to_int b \<longleftrightarrow> a \<le> b"
  by (auto simp: year_sort_key_def less_eq_prod_def)

lemma year_key_text_before_numeric:
  "to_int a = None \<Longrightarrow> to_int b = Some m \<Longrightarrow>
     \<not> year_sort_key to_int a \<le> year_sort_key to_int b"
  by (auto simp: year_sort_key_def less_eq_prod_def)

lemma numeric_keys_first:
  "sorted (map (year_sort_key to_int) r) \<Longrightarrow>
     r = filter (\<lambda>k. to_int k \<noteq> None) r @ filter (\<lambda>k. to_int k = None) r"
proof (induction r)
  case Nil
  then show ?case by simp
next
  case (Cons x xs)
  then have le: "\<forall>y\<in>set xs. year_sort_key to_int x \<le> year_sort_key to_int y"
    and IH: "xs = filter (\<lambda>k. to_int k \<noteq> None) xs @ filter (\<lambda>k. to_int k = None) xs"
    by auto
  show ?case
  proof (cases "to_int x")
    case None
    with le have "\<forall>y\<in>set xs. to_int y = None"
      using year_key_text_before_numeric [of to_int x] by (metis not_Some_eq)
    then have "filter (\<lambda>k. to_int k \<noteq> None) xs = []" "filter (\<lambda>k. to_int k = None) xs = xs"
      by (simp_all add: filter_empty_conv)
    with None show ?thesis by simp
  next
    case (Some n)
    with IH show ?thesis by simp
  qed
qed

text \<open>
  Claim C4. The sorted keys are the given keys in another order; those that \<open>int\<close>
  accepts come first, by descending value; the others follow, in ascending order of
  their text (the order of Python strings, code point by code point). This holds for
  whatever \<open>int\<close> accepts.
\<close>

theorem year_keys_order:
  "mset (sorted_years to_int ks) = mset ks
   \<and> sorted_years to_int ks
       = filter (\<lambda>k. to_int k \<noteq> None) (sorted_years to_int ks)
         @ filter (\<lambda>k. to_int k = None) (sorted_years to_int ks)
   \<and> sorted_wrt (\<lambda>a b. \<forall>n m. to_int a = Some n \<longrightarrow> to_int b = Some m \<longrightarrow> m \<le> n)
        (filter (\<lambda>k. to_int k \<noteq> None) (sorted_years to_int ks))
   \<and> sorted (filter (\<lambda>k. to_int k = None) (sorted_years to_int ks))"
proof -
  let ?r = "sorted_years to_int ks"
  have s: "sorted (map (year_sort_key to_int) ?r)" by (simp add: sorted_years_def)
  then have w: "sorted_wrt (\<lambda>a b. year_sort_key to_int a \<le> year_sort_key to_int b) ?r"
    by (simp add: sorted_map)
  have "sorted_wrt (\<lambda>a b. year_sort_key to_int a \<le> year_sort_key to_int b)
          (filter (\<lambda>k. to_int k \<noteq> None) ?r)"
    using w by (rule sorted_wrt_filter)
  then have num: "sorted_wrt (\<lambda>a b. \<forall>n m. to_int a = Some n \<longrightarrow> to_int b = Some m \<longrightarrow> m \<le> n)
          (filter (\<lambda>k. to_int k \<noteq> None) ?r)"
    by (rule sorted_wrt_mono_rel [rotated]) (auto simp: year_key_le_numeric)
  have "sorted_wrt (\<lambda>a b. year_sort_key to_int a \<le> year_sort_key to_int b)
          (filter (\<lambda>k. to_int k = None) ?r)"
    using w by (rule sorted_wrt_filter)
  then have "sorted_wrt (\<le>) (filter (\<lambda>k. to_int k = None) ?r)"
    by (rule sorted_wrt_mono_rel [rotated]) (auto simp: year_key_le_text)
  then have alpha: "sorted (filter (\<lambda>k. to_int k = None) ?r)" by simp
  have "mset ?r = mset ks" by (simp add: sorted_years_def)
  with numeric_keys_first [OF s] num alpha show ?thesis by blast
qed

text \<open>
  The keys \<open>2021\<close>, \<open>2023\<close>, \<open>Undated\<close>, \<open>2022\<close> are sorted to \<open>2023\<close>, \<open>2022\<close>, \<open>2021\<close>,
  \<open>Undated\<close>. For \<open>to_int\<close> the table gives what \<open>int\<close> gives on these keys: the value of
  each of the three years, and no value for \<open>Undated\<close>, on which \<open>int\<close> raises.
\<close>

theorem year_keys_order_witness:
  "sorted_years (map_of [(map of_char ''2021'', 2021), (map of_char ''2022'', 2022), (map of_char ''2023'', 2023)])
     (map (map of_char) [''2021'', ''2023'', ''Undated'', ''2022''])
     = map (map of_char) [''2023'', ''2022'', ''2021'', ''Undated'']
   \<and> filter (\<lambda>k. (map_of [(map of_char ''2021'', 2021), (map of_char ''2022'', 2022), (map of_char ''2023'', 2023)]) k = None)
        (sorted_years (map_of [(map of_char ''2021'', 2021), (map of_char ''2022'', 2022), (map of_char ''2023'', 2023)])
           (map (map of_char) [''2021'', ''2023'', ''Undated'', ''2022'']))
     = [map of_char ''Undated'']"
  using year_keys_order [of "(map_of [(map of_char ''2021'', 2021), (map of_char ''2022'', 2022), (map of_char ''2023'', 2023)])"
      "map (map of_char) [''2021'', ''2023'', ''Undated'', ''2022'']"]
  by (simp add: sorted_years_def year_sort_key_def)

section \<open>The numbering of the lists\<close>

lemma group_add_keys:
  "map fst (group_add y e g) = (if y \<in> fst ` set g then map fst g else map fst g @ [y])"
  by (induction y e g rule: group_add.induct) auto

lemma group_add_sizes:
  "sum_list (map (\<lambda>(k, v). length v) (group_add y e g)) = Suc (sum_list (map (\<lambda>(k, v). length v) g))"
  by (induction y e g rule: group_add.induct) auto

lemma group_add_distinct:
  "distinct (map fst g) \<Longrightarrow> distinct (map fst (group_add y e g))"
  by (auto simp: group_add_keys)

lemma groups_fold:
  "distinct (map fst g) \<Longrightarrow>
     distinct (map fst (foldl (\<lambda>g e. group_add (f e) e g) g es))
     \<and> sum_list (map (\<lambda>(k, v). length v) (foldl (\<lambda>g e. group_add (f e) e g) g es))
         = sum_list (map (\<lambda>(k, v). length v) g) + length es"
proof (induction es arbitrary: g)
  case Nil
  then show ?case by simp
next
  case (Cons e es)
  from Cons.IH [OF group_add_distinct [OF Cons.prems, of "f e" e]]
  show ?case by (simp add: group_add_sizes)
qed

lemma grouped_by_year_distinct: "distinct (map fst (grouped_by_year entries))"
  using groups_fold [of "[]"] by (simp add: grouped_by_year_def)

lemma grouped_by_year_total:
  "sum_list (map (\<lambda>(k, v). length v) (grouped_by_year entries)) = length entries"
  using groups_fold [of "[]"] by (simp add: grouped_by_year_def)

lemma group_sizes_by_key:
  assumes "distinct (map fst g)"
  shows "sum_list (map (group_size g) (map fst g)) = sum_list (map (\<lambda>(k, v). length v) g)"
proof -
  have "group_size g (fst x) = (case x of (k, v) \<Rightarrow> length v)" if "x \<in> set g" for x
  proof (cases x)
    case (Pair k v)
    with that assms show ?thesis by (simp add: group_size_def)
  qed
  then have "map (\<lambda>x. group_size g (fst x)) g = map (\<lambda>(k, v). length v) g"
    by (intro map_cong refl)
  then show ?thesis by (simp only: map_map o_def)
qed

lemma count_down_append:
  "map (\<lambda>i. n - int i) [0..<k] @ map (\<lambda>i. n - int k - int i) [0..<m]
     = map (\<lambda>i. n - int i) [0..<k + m]"
proof -
  have "[0..<k + m] = [0..<k] @ [k..<k + m]"
    by (rule upt_add_eq_append) simp
  moreover have "[k..<k + m] = map (\<lambda>i. i + k) [0..<m]"
    by (metis map_add_upt add.commute)
  moreover have "map (\<lambda>i. n - int i) (map (\<lambda>i. i + k) [0..<m])
                   = map (\<lambda>i. n - int k - int i) [0..<m]"
    by (rule nth_equalityI) simp_all
  ultimately show ?thesis by (simp only: map_append)
qed

lemma item_numbers_simp:
  "item_numbers \<lparr>heading = h, start = n, papers_in_year = ps\<rparr>
     = map (\<lambda>i. n - int i) [0..<length ps]"
  by (simp add: item_numbers_def)

lemma year_lists_numbers:
  "concat (map item_numbers (year_lists g n ys))
     = map (\<lambda>i. n - int i) [0..<sum_list (map (group_size g) ys)]"
proof (induction ys arbitrary: n)
  case Nil
  then show ?case by simp
next
  case (Cons y ys)
  let ?ps = "sort_key (\<lambda>x. get_or x ''author'' [])
               (case map_of g y of None \<Rightarrow> [] | Some es \<Rightarrow> es)"
  have len: "length ?ps = group_size g y" by (simp add: group_size_def)
  have "concat (map item_numbers (year_lists g n (y # ys)))
          = map (\<lambda>i. n - int i) [0..<group_size g y]
            @ concat (map item_numbers (year_lists g (n - int (group_size g y)) ys))"
    by (simp only: year_lists.simps Let_def list.map concat.simps item_numbers_simp len)
  also have "\<dots> = map (\<lambda>i. n - int i) [0..<group_size g y]
            @ map (\<lambda>i. n - int (group_size g y) - int i) [0..<sum_list (map (group_size g) ys)]"
    by (simp only: Cons.IH)
  also have "\<dots> = map (\<lambda>i. n - int i) [0..<group_size g y + sum_list (map (group_size g) ys)]"
    by (rule count_down_append)
  finally show ?case by simp
qed

lemma year_lists_headings: "map heading (year_lists g n ys) = ys"
  by (induction ys arbitrary: n) (simp_all add: Let_def)

lemma count_down_all: "map (\<lambda>i. int n - int i) [0..<n] = map int (rev [1..<Suc n])"
proof (rule nth_equalityI)
  show "length (map (\<lambda>i. int n - int i) [0..<n]) = length (map int (rev [1..<Suc n]))"
    by simp
next
  fix i
  assume "i < length (map (\<lambda>i. int n - int i) [0..<n])"
  then have i: "i < n" by simp
  then have "rev [1..<Suc n] ! i = [1..<Suc n] ! (n - Suc i)"
    by (simp add: rev_nth del: upt_Suc)
  also have "\<dots> = n - i" using i by (simp add: nth_upt del: upt_Suc)
  finally have "map int (rev [1..<Suc n]) ! i = int (n - i)"
    using i by (simp del: upt_Suc)
  with i show "map (\<lambda>i. int n - int i) [0..<n] ! i = map int (rev [1..<Suc n]) ! i"
    by (simp del: upt_Suc)
qed

lemma sum_list_sort_key:
  "sum_list (map f (sort_key k xs)) = sum_list (map (f :: 'a \<Rightarrow> nat) xs)"
proof -
  have "mset (map f (sort_key k xs)) = mset (map f xs)" by simp
  then show ?thesis by (metis sum_mset_sum_list)
qed

text \<open>
  Claim C3. The counter starts at the number of records, each list starts at the counter
  and the counter goes down by the size of the list: read through the page, list after
  list and item after item, the numbers are the total, the total minus one, and so on
  down to 1, every number from 1 to the total once. The lists come in the order of the
  sorted years.
\<close>

theorem numbering_covers_all:
  "concat (map item_numbers (publication_lists to_int entries))
     = map int (rev [1..<Suc (length entries)])
   \<and> map heading (publication_lists to_int entries)
     = sorted_years to_int (map fst (grouped_by_year entries))"
proof -
  let ?g = "grouped_by_year entries"
  have "sum_list (map (group_size ?g) (sorted_years to_int (map fst ?g)))
          = sum_list (map (group_size ?g) (map fst ?g))"
    unfolding sorted_years_def by (rule sum_list_sort_key)
  also have "\<dots> = length entries"
    by (simp only: group_sizes_by_key [OF grouped_by_year_distinct] grouped_by_year_total)
  finally have total:
    "sum_list (map (group_size ?g) (sorted_years to_int (map fst ?g))) = length entries" .
  have "concat (map item_numbers (publication_lists to_int entries))
          = map (\<lambda>i. int (length entries) - int i) [0..<length entries]"
    by (simp only: publication_lists_def Let_def year_lists_numbers grouped_by_year_total total)
  moreover have "map heading (publication_lists to_int entries)
          = sorted_years to_int (map fst ?g)"
    by (simp only: publication_lists_def Let_def year_lists_headings)
  ultimately show ?thesis by (simp only: count_down_all)
qed

text \<open>
  Three records, one of 2022 and two of 2023: the list of 2023 starts at 3 and the list of
  2022 at 1; the numbers are 3, 2 and 1. For \<open>to_int\<close> the table gives what \<open>int\<close> gives on
  the years that occur.
\<close>

theorem numbering_covers_all_witness:
  "map start (publication_lists (map_of [(map of_char ''2021'', 2021), (map of_char ''2022'', 2022), (map of_char ''2023'', 2023)])
     [[map of_char ''year'' \<mapsto> map of_char ''2022'', map of_char ''author'' \<mapsto> map of_char ''A''],
      [map of_char ''year'' \<mapsto> map of_char ''2023'', map of_char ''author'' \<mapsto> map of_char ''C''],
      [map of_char ''year'' \<mapsto> map of_char ''2023'', map of_char ''author'' \<mapsto> map of_char ''B'']])
     = [3, 1]
   \<and> map heading (publication_lists (map_of [(map of_char ''2021'', 2021), (map of_char ''2022'', 2022), (map of_char ''2023'', 2023)])
     [[map of_char ''year'' \<mapsto> map of_char ''2022'', map of_char ''author'' \<mapsto> map of_char ''A''],
      [map of_char ''year'' \<mapsto> map of_char ''2023'', map of_char ''author'' \<mapsto> map of_char ''C''],
      [map of_char ''year'' \<mapsto> map of_char ''2023'', map of_char ''author'' \<mapsto> map of_char ''B'']])
     = [map of_char ''2023'', map of_char ''2022'']
   \<and> map item_numbers (publication_lists (map_of [(map of_char ''2021'', 2021), (map of_char ''2022'', 2022), (map of_char ''2023'', 2023)])
     [[map of_char ''year'' \<mapsto> map of_char ''2022'', map of_char ''author'' \<mapsto> map of_char ''A''],
      [map of_char ''year'' \<mapsto> map of_char ''2023'', map of_char ''author'' \<mapsto> map of_char ''C''],
      [map of_char ''year'' \<mapsto> map of_char ''2023'', map of_char ''author'' \<mapsto> map of_char ''B'']])
     = [[3, 2], [1]]"
  using numbering_covers_all [of "(map_of [(map of_char ''2021'', 2021), (map of_char ''2022'', 2022), (map of_char ''2023'', 2023)])"
     "[[map of_char ''year'' \<mapsto> map of_char ''2022'', map of_char ''author'' \<mapsto> map of_char ''A''],
      [map of_char ''year'' \<mapsto> map of_char ''2023'', map of_char ''author'' \<mapsto> map of_char ''C''],
      [map of_char ''year'' \<mapsto> map of_char ''2023'', map of_char ''author'' \<mapsto> map of_char ''B'']]"]
  by (simp add: publication_lists_def grouped_by_year_def get_or_def sorted_years_def
      year_sort_key_def
      item_numbers_def)

section \<open>Splitting the authors\<close>

lemma match_and_separator:
  assumes "match_and s = Some n"
  shows "5 \<le> n \<and> n \<le> length s \<and> is_and_separator (take n s)"
proof -
  let ?w1 = "takeWhile is_space s"
  from assms have w1: "?w1 \<noteq> []" by (auto simp: match_and_def split: if_splits)
  from assms obtain a b d rest where r: "dropWhile is_space s = a # b # d # rest"
    by (auto simp: match_and_def split: if_splits list.splits)
  let ?w2 = "takeWhile is_space rest"
  from assms r have word: "(a = 97 \<or> a = 65) \<and> (b = 110 \<or> b = 78) \<and> (d = 100 \<or> d = 68)"
    and w2: "?w2 \<noteq> []" and n: "n = length ?w1 + 3 + length ?w2"
    by (auto simp: match_and_def split: if_splits)
  define A where "A = ?w1 @ [a, b, d] @ ?w2"
  define B where "B = dropWhile is_space rest"
  have "s = ?w1 @ dropWhile is_space s" by simp
  also have "dropWhile is_space s = [a, b, d] @ ?w2 @ B"
    by (simp add: r B_def)
  finally have s: "s = A @ B" by (simp add: A_def)
  have lenA: "length A = n" by (simp add: A_def n)
  have "take (length A) (A @ B) = A" by simp
  then have tk: "take n s = A" using s lenA by metis
  have a: "\<not> is_space a" using word by (auto simp: is_space_def)
  have all1: "\<forall>c\<in>set ?w1. is_space c" by (meson set_takeWhileD)
  have all2: "\<forall>c\<in>set ?w2. is_space c" by (meson set_takeWhileD)
  have t1: "takeWhile is_space A = ?w1"
    unfolding A_def using a all1 by (simp add: takeWhile_append2)
  have d1: "dropWhile is_space A = a # b # d # ?w2"
    unfolding A_def using a all1 by (simp add: dropWhile_append2)
  have "is_and_separator (take n s)"
    unfolding tk is_and_separator_def t1 d1 using w1 w2 word all2
    by (simp add: list_all_iff)
  moreover have "n \<le> length s" using s lenA by (metis le_add1 length_append)
  moreover have "5 \<le> n" using w1 w2 n by (cases ?w1; cases ?w2) simp_all
  ultimately show ?thesis by simp
qed

lemma split_and_nonempty: "split_and s \<noteq> []"
  by (induction s rule: split_and.induct) (auto split: option.splits list.splits)

lemma interleave_Cons_head:
  "interleave ((c # p) # ps) seps = c # interleave (p # ps) seps"
  by (cases seps) simp_all

lemma split_and_rebuild:
  "length (split_and s) = Suc (length (and_separators s))
   \<and> list_all is_and_separator (and_separators s)
   \<and> interleave (split_and s) (and_separators s) = s"
proof (induction s rule: split_and.induct)
  case 1
  show ?case by simp
next
  case (2 c cs)
  show ?case
  proof (cases "match_and (c # cs)")
    case None
    obtain p ps where sp: "split_and cs = p # ps"
      using split_and_nonempty [of cs] by (cases "split_and cs") auto
    from "2.IH"(1) [OF None] sp None show ?thesis
      by (simp add: interleave_Cons_head)
  next
    case (Some n)
    from match_and_separator [OF Some]
    have n: "5 \<le> n" "n \<le> length (c # cs)" and sep: "is_and_separator (take n (c # cs))"
      by simp_all
    have rest: "drop (n - 1) cs = drop n (c # cs)"
      using n(1) by (cases n) simp_all
    have "take n (c # cs) @ drop (n - 1) cs = c # cs"
      unfolding rest by (rule append_take_drop_id)
    with "2.IH"(2) [OF Some] Some sep show ?thesis by simp
  qed
qed

lemma interleave_sublist:
  "x \<in> set seps \<Longrightarrow> length seps < length ps \<Longrightarrow> sublist x (interleave ps seps)"
proof (induction ps seps rule: interleave.induct)
  case (3 p ps y xs)
  show ?case
  proof (cases "x = y")
    case True
    then show ?thesis by (simp add: sublist_append)
  next
    case False
    with 3 have "sublist x (interleave ps xs)" by simp
    then show ?thesis by (simp add: sublist_append)
  qed
qed simp_all

lemma and_separator_space: "is_and_separator x \<Longrightarrow> \<exists>c\<in>set x. is_space c"
proof -
  assume "is_and_separator x"
  then have "takeWhile is_space x \<noteq> []" by (simp add: is_and_separator_def)
  then obtain c cs where "x = c # cs" "is_space c" by (cases x) (auto split: if_splits)
  then show ?thesis by auto
qed

lemma match_and_at_separator:
  assumes "is_and_separator x"
  shows "match_and (x @ rest) \<noteq> None"
proof -
  let ?w1 = "takeWhile is_space x"
  from assms have w1: "?w1 \<noteq> []" by (simp add: is_and_separator_def)
  from assms obtain a n d w where r: "dropWhile is_space x = a # n # d # w"
    and word: "(a = 97 \<or> a = 65) \<and> (n = 110 \<or> n = 78) \<and> (d = 100 \<or> d = 68)"
    and w: "w \<noteq> []" "list_all is_space w"
    by (auto simp: is_and_separator_def split: list.splits)
  have a: "\<not> is_space a" using word by (auto simp: is_space_def)
  have x: "x = ?w1 @ a # n # d # w" using r by (metis takeWhile_dropWhile_id)
  have all1: "\<forall>c\<in>set ?w1. is_space c" by (meson set_takeWhileD)
  have t: "takeWhile is_space (x @ rest) = ?w1"
    by (subst x) (use a all1 in \<open>simp add: takeWhile_append2\<close>)
  have dr: "dropWhile is_space (x @ rest) = a # n # d # (w @ rest)"
    by (subst x) (use a all1 in \<open>simp add: dropWhile_append2\<close>)
  from w obtain c w' where "w = c # w'" "is_space c" by (cases w) auto
  then have "takeWhile is_space (w @ rest) \<noteq> []" by simp
  with w1 word show ?thesis by (simp add: match_and_def t dr)
qed

lemma split_and_first_prefix: "prefix (hd (split_and s)) s"
proof -
  obtain p ps where sp: "split_and s = p # ps"
    using split_and_nonempty [of s] by (cases "split_and s") auto
  from split_and_rebuild [of s] have "interleave (p # ps) (and_separators s) = s"
    by (simp add: sp)
  then have "prefix p s" by (cases "and_separators s") (auto simp: prefix_def)
  then show ?thesis by (simp add: sp)
qed

lemma split_and_complete:
  "is_and_separator x \<Longrightarrow> p \<in> set (split_and s) \<Longrightarrow> \<not> sublist x p"
proof (induction s arbitrary: p rule: split_and.induct)
  case 1
  then have "x \<noteq> []" by (auto simp: is_and_separator_def)
  with 1 show ?case by simp
next
  case (2 c cs)
  from "2.prems"(1) have xne: "x \<noteq> []" by (auto simp: is_and_separator_def)
  show ?case
  proof (cases "match_and (c # cs)")
    case None
    obtain q qs where sp: "split_and cs = q # qs"
      using split_and_nonempty [of cs] by (cases "split_and cs") auto
    with None "2.prems"(2) have p: "p = c # q \<or> p \<in> set qs" by simp
    then show ?thesis
    proof
      assume pq: "p = c # q"
      have nq: "\<not> sublist x q" using "2.IH"(1) [OF None "2.prems"(1)] sp by simp
      have "\<not> prefix x (c # q)"
      proof
        assume "prefix x (c # q)"
        moreover have "prefix (c # q) (c # cs)"
          using split_and_first_prefix [of cs] sp by simp
        ultimately have "prefix x (c # cs)" by (metis prefix_order.order_trans)
        then obtain rest where "c # cs = x @ rest" by (auto simp: prefix_def)
        with match_and_at_separator [OF "2.prems"(1), of rest] None show False by simp
      qed
      with nq pq show ?thesis by (simp add: sublist_Cons_right)
    next
      assume "p \<in> set qs"
      then show ?thesis using "2.IH"(1) [OF None "2.prems"(1)] sp by simp
    qed
  next
    case (Some n)
    with "2.prems"(2) have "p = [] \<or> p \<in> set (split_and (drop (n - 1) cs))" by simp
    then show ?thesis
    proof
      assume "p = []"
      with xne show ?thesis by simp
    next
      assume "p \<in> set (split_and (drop (n - 1) cs))"
      then show ?thesis using "2.IH"(2) [OF Some "2.prems"(1)] by simp
    qed
  qed
qed

lemma match_and_rest:
  assumes "match_and s = Some n"
  shows "drop n s = [] \<or> \<not> is_space (hd (drop n s))"
proof -
  let ?w1 = "takeWhile is_space s"
  from assms obtain a b d rest where r: "dropWhile is_space s = a # b # d # rest"
    by (auto simp: match_and_def split: if_splits list.splits)
  let ?w2 = "takeWhile is_space rest"
  from assms r have n: "n = length ?w1 + 3 + length ?w2"
    by (auto simp: match_and_def split: if_splits)
  define A where "A = ?w1 @ [a, b, d] @ ?w2"
  define B where "B = dropWhile is_space rest"
  have "s = ?w1 @ dropWhile is_space s" by simp
  also have "dropWhile is_space s = [a, b, d] @ ?w2 @ B"
    by (simp add: r B_def)
  finally have s: "s = A @ B" by (simp add: A_def)
  have lenA: "length A = n" by (simp add: A_def n)
  have "drop (length A) (A @ B) = B" by simp
  then have "drop n s = B" using s lenA by metis
  moreover have "B = [] \<or> \<not> is_space (hd B)"
    unfolding B_def using hd_dropWhile [of is_space rest] by blast
  ultimately show ?thesis by simp
qed

lemma match_and_extend:
  assumes "is_space c" and "match_and cs = Some n"
  shows "match_and (c # cs) \<noteq> None"
proof -
  have d: "dropWhile is_space (c # cs) = dropWhile is_space cs"
    and t: "takeWhile is_space (c # cs) = c # takeWhile is_space cs"
    using assms(1) by simp_all
  from assms(2) have "takeWhile is_space cs \<noteq> []"
    unfolding match_and_def by (metis option.distinct(1))
  with assms(2) show ?thesis
    unfolding match_and_def d t
    by (simp only: if_False list.distinct split: list.splits if_splits) auto
qed

lemma split_and_first_empty:
  assumes "split_and cs = [] # qs" and "qs \<noteq> []"
  shows "match_and cs \<noteq> None"
proof (cases cs)
  case Nil
  with assms show ?thesis by simp
next
  case (Cons d ds)
  with assms show ?thesis by (auto split: option.splits list.splits)
qed

lemma split_and_greedy:
  "p \<in> set (tl (split_and s)) \<Longrightarrow> p = [] \<or> \<not> is_space (hd p)"
proof (induction s arbitrary: p rule: split_and.induct)
  case 1
  then show ?case by simp
next
  case (2 c cs)
  show ?case
  proof (cases "match_and (c # cs)")
    case None
    obtain q qs where sp: "split_and cs = q # qs"
      using split_and_nonempty [of cs] by (cases "split_and cs") auto
    with None "2.prems" have "p \<in> set (tl (split_and cs))" by simp
    then show ?thesis by (rule "2.IH"(1) [OF None])
  next
    case (Some n)
    let ?R = "drop (n - 1) cs"
    from match_and_separator [OF Some] have n: "5 \<le> n" by simp
    then have R: "?R = drop n (c # cs)" by (cases n) simp_all
    obtain q qs where sp: "split_and ?R = q # qs"
      using split_and_nonempty [of ?R] by (cases "split_and ?R") auto
    from Some "2.prems" sp have "p = q \<or> p \<in> set qs" by simp
    then show ?thesis
    proof
      assume pq: "p = q"
      have "prefix q ?R" using split_and_first_prefix [of ?R] sp by simp
      then have "q = [] \<or> hd q = hd ?R" by (cases q) (auto simp: prefix_def)
      moreover have "q \<noteq> [] \<Longrightarrow> ?R \<noteq> []" using \<open>prefix q ?R\<close> by auto
      moreover have "?R = [] \<or> \<not> is_space (hd ?R)"
        unfolding R using match_and_rest [OF Some] .
      ultimately show ?thesis using pq by auto
    next
      assume "p \<in> set qs"
      then have "p \<in> set (tl (split_and ?R))" by (simp only: sp list.sel)
      then show ?thesis by (rule "2.IH"(2) [OF Some])
    qed
  qed
qed

lemma split_and_leftmost:
  "p \<in> set (butlast (split_and s)) \<Longrightarrow> p = [] \<or> \<not> is_space (last p)"
proof (induction s arbitrary: p rule: split_and.induct)
  case 1
  then show ?case by simp
next
  case (2 c cs)
  show ?case
  proof (cases "match_and (c # cs)")
    case None
    obtain q qs where sp: "split_and cs = q # qs"
      using split_and_nonempty [of cs] by (cases "split_and cs") auto
    show ?thesis
    proof (cases "qs = []")
      case True
      with None sp "2.prems" show ?thesis by simp
    next
      case False
      with None sp "2.prems" have "p = c # q \<or> p \<in> set (butlast qs)" by simp
      then show ?thesis
      proof
        assume pq: "p = c # q"
        show ?thesis
        proof (cases "q = []")
          case True
          have "\<not> is_space c"
          proof
            assume "is_space c"
            moreover from split_and_first_empty [of cs qs] sp True False
            obtain n where "match_and cs = Some n" by auto
            ultimately have "match_and (c # cs) \<noteq> None" by (rule match_and_extend)
            with None show False by simp
          qed
          with pq True show ?thesis by simp
        next
          case nonempty: False
          have "q \<in> set (butlast (split_and cs))" using sp False by simp
          from "2.IH"(1) [OF None this] nonempty have "\<not> is_space (last q)" by simp
          with pq nonempty show ?thesis by simp
        qed
      next
        assume "p \<in> set (butlast qs)"
        then have "p \<in> set (butlast (split_and cs))" using sp False by simp
        then show ?thesis by (rule "2.IH"(1) [OF None])
      qed
    qed
  next
    case (Some n)
    let ?R = "drop (n - 1) cs"
    have ne: "split_and ?R \<noteq> []" by (rule split_and_nonempty)
    with Some "2.prems" have "p = [] \<or> p \<in> set (butlast (split_and ?R))" by simp
    then show ?thesis
    proof
      assume "p = []"
      then show ?thesis by simp
    next
      assume "p \<in> set (butlast (split_and ?R))"
      then show ?thesis by (rule "2.IH"(2) [OF Some])
    qed
  qed
qed

text \<open>
  Claim C5. \<open>format_authors\<close> splits its trimmed input with \<open>split_and\<close> and formats the
  parts that are not empty. The split cuts exactly at the separators, a separator being
  a run of spaces, the word \<open>and\<close> in any case, and a run of spaces:
  \<^item> the parts, put back together with a separator between each two neighbours, are
    the text that was split, so nothing but separators is cut out;
  \<^item> no part contains a separator, so every separator that the scan meets is cut,
    in lower or upper case;
  \<^item> a part after a cut does not begin with a space and a part before a cut does not
    end with one: each cut takes the whole run of spaces on both sides of the word;
  \<^item> a text in which no separator occurs is returned as one part, whatever other
    occurrences of the letters \<open>and\<close> it holds.
\<close>

theorem split_only_at_and:
  "(\<exists>seps. length (split_and s) = Suc (length seps)
      \<and> list_all is_and_separator seps
      \<and> interleave (split_and s) seps = s)
   \<and> (\<forall>p\<in>set (split_and s). \<forall>x. is_and_separator x \<longrightarrow> \<not> sublist x p)
   \<and> (\<forall>p\<in>set (tl (split_and s)). p = [] \<or> \<not> is_space (hd p))
   \<and> (\<forall>p\<in>set (butlast (split_and s)). p = [] \<or> \<not> is_space (last p))
   \<and> ((\<forall>x. is_and_separator x \<longrightarrow> \<not> sublist x s) \<longrightarrow> split_and s = [s])
   \<and> (authors_raw \<noteq> [] \<longrightarrow>
        format_authors nfc authors_raw
          = (let names = map (format_name nfc)
                           (filter (\<lambda>p. p \<noteq> []) (map py_strip (split_and (py_strip authors_raw))))
             in if names \<noteq> [] then join (map of_char '', '') (map html_escape names)
                else map of_char ''No author specified''))"
proof (intro conjI)
  show "\<exists>seps. length (split_and s) = Suc (length seps)
      \<and> list_all is_and_separator seps \<and> interleave (split_and s) seps = s"
    using split_and_rebuild by blast
next
  show "\<forall>p\<in>set (split_and s). \<forall>x. is_and_separator x \<longrightarrow> \<not> sublist x p"
    using split_and_complete by blast
next
  show "\<forall>p\<in>set (tl (split_and s)). p = [] \<or> \<not> is_space (hd p)"
    using split_and_greedy by blast
next
  show "\<forall>p\<in>set (butlast (split_and s)). p = [] \<or> \<not> is_space (last p)"
    using split_and_leftmost by blast
next
  show "(\<forall>x. is_and_separator x \<longrightarrow> \<not> sublist x s) \<longrightarrow> split_and s = [s]"
  proof
    assume no: "\<forall>x. is_and_separator x \<longrightarrow> \<not> sublist x s"
    have "and_separators s = []"
    proof (rule ccontr)
      assume "and_separators s \<noteq> []"
      then obtain x where x: "x \<in> set (and_separators s)" by (cases "and_separators s") auto
      with split_and_rebuild [of s] have "is_and_separator x" "sublist x s"
        using interleave_sublist [of x "and_separators s" "split_and s"]
        by (auto simp: list_all_iff)
      with no show False by blast
    qed
    with split_and_rebuild [of s] show "split_and s = [s]"
      by (cases "split_and s") auto
  qed
next
  show "authors_raw \<noteq> [] \<longrightarrow>
        format_authors nfc authors_raw
          = (let names = map (format_name nfc)
                           (filter (\<lambda>p. p \<noteq> []) (map py_strip (split_and (py_strip authors_raw))))
             in if names \<noteq> [] then join (map of_char '', '') (map html_escape names)
                else map of_char ''No author specified'')"
    by (simp add: format_authors_def)
qed

text \<open>
  \<open>J. Doe and K. Anderson\<close> is split into two names, at the only separator; a list of
  three names with \<open>AND\<close> in capitals between line break and tab is split at both
  separators; \<open>Anderson\<close> alone is not split.
\<close>

theorem split_only_at_and_witness:
  "split_and (map of_char ''J. Doe and K. Anderson'')
     = [map of_char ''J. Doe'', map of_char ''K. Anderson'']
   \<and> and_separators (map of_char ''J. Doe and K. Anderson'') = [map of_char '' and '']
   \<and> is_and_separator (map of_char '' and '')
   \<and> split_and (map of_char ''A. Smith'' @ [10, 32] @ map of_char ''AND'' @ [9]
                 @ map of_char ''B. Jones and C. Brandt'')
     = [map of_char ''A. Smith'', map of_char ''B. Jones'', map of_char ''C. Brandt'']
   \<and> split_and (map of_char ''Anderson'') = [map of_char ''Anderson'']
   \<and> format_authors id (map of_char ''J. Doe and K. Anderson'')
     = map of_char ''J. Doe, K. Anderson''"
proof -
  have "\<not> sublist x (map of_char ''Anderson'')" if "is_and_separator x" for x
  proof
    assume "sublist x (map of_char ''Anderson'')"
    then have "set x \<subseteq> set (map of_char ''Anderson'')" by (rule set_mono_sublist)
    moreover from that obtain c where "c \<in> set x" "is_space c"
      using and_separator_space by blast
    ultimately show False by (auto simp: is_space_def)
  qed
  then have "split_and (map of_char ''Anderson'') = [map of_char ''Anderson'']"
    using split_only_at_and [of "map of_char ''Anderson''"] by blast
  then show ?thesis
    by (simp add: match_and_def is_space_def is_and_separator_def format_authors_def
      py_strip_def format_name_def latex_to_unicode_def special_macros_def SPECIAL_MACROS_def
      strip_braces_def dash_quotes_def DASH_QUOTES_def html_escape_def)
qed

section \<open>Special macros\<close>

lemma str_replace_split:
  assumes "old \<noteq> []" and "c \<notin> set (tl old)"
  shows "str_replace old new (s1 @ c # s2) = str_replace old new s1 @ str_replace old new (c # s2)"
  using assms
proof (induction old new s1 rule: str_replace.induct)
  case (1 old new)
  then show ?case by simp
next
  case (2 old new x xs)
  show ?case
  proof (cases "prefix old (x # xs)")
    case True
    then have len: "length old - 1 \<le> length xs"
      using prefix_length_le by fastforce
    from True have pfx: "prefix old (x # xs @ c # s2)"
      using prefix_prefix [of old "x # xs" "c # s2"] by simp
    have IH: "str_replace old new (drop (length old - 1) xs @ c # s2)
                = str_replace old new (drop (length old - 1) xs) @ str_replace old new (c # s2)"
      using "2.IH"(2) "2.prems" True by blast
    have "str_replace old new ((x # xs) @ c # s2)
            = new @ str_replace old new (drop (length old - 1) (xs @ c # s2))"
      using pfx "2.prems"(1) by (simp only: append_Cons str_replace.simps if_True if_False)
    also have "drop (length old - 1) (xs @ c # s2) = drop (length old - 1) xs @ c # s2"
      using len by simp
    also have "new @ str_replace old new (drop (length old - 1) xs @ c # s2)
            = (new @ str_replace old new (drop (length old - 1) xs)) @ str_replace old new (c # s2)"
      by (simp only: IH append_assoc)
    also have "new @ str_replace old new (drop (length old - 1) xs) = str_replace old new (x # xs)"
      using True "2.prems"(1) by (simp only: str_replace.simps if_True if_False)
    finally show ?thesis .
  next
    case False
    have "\<not> prefix old ((x # xs) @ c # s2)"
    proof
      assume "prefix old ((x # xs) @ c # s2)"
      then have "prefix old (x # xs) \<or> (\<exists>us. old = (x # xs) @ us \<and> prefix us (c # s2))"
        by (simp only: prefix_append)
      with False obtain us where us: "old = (x # xs) @ us" "prefix us (c # s2)"
        by blast
      with False have "us \<noteq> []" by auto
      with us(2) obtain us' where "us = c # us'" by (cases us) auto
      with us(1) have "c \<in> set (tl old)" by simp
      with "2.prems" show False by simp
    qed
    then have np: "\<not> prefix old (x # xs @ c # s2)" by simp
    have IH: "str_replace old new (xs @ c # s2)
                = str_replace old new xs @ str_replace old new (c # s2)"
      using "2.IH"(3) "2.prems" False by blast
    have "str_replace old new ((x # xs) @ c # s2) = x # str_replace old new (xs @ c # s2)"
      using np "2.prems"(1) by (simp only: append_Cons str_replace.simps if_True if_False)
    also have "\<dots> = (x # str_replace old new xs) @ str_replace old new (c # s2)"
      by (simp only: IH append_Cons)
    also have "x # str_replace old new xs = str_replace old new (x # xs)"
      using False "2.prems"(1) by (simp only: str_replace.simps if_True if_False)
    finally show ?thesis .
  qed
qed

lemma str_replace_split_backslash:
  "old \<noteq> [] \<Longrightarrow> 92 \<notin> set (tl old) \<Longrightarrow>
     str_replace old new (s1 @ 92 # s2) = str_replace old new s1 @ str_replace old new (92 # s2)"
  by (rule str_replace_split)

lemma str_replace_split_other:
  assumes "old \<noteq> []" and "c \<notin> set old"
  shows "str_replace old new (s1 @ c # s2) = str_replace old new s1 @ c # str_replace old new s2"
proof -
  from assms have "c \<notin> set (tl old)" by (cases old) auto
  moreover from assms have "\<not> prefix old (c # s2)" by (cases old) auto
  ultimately show ?thesis using assms(1) by (simp add: str_replace_split)
qed

lemma macros_oe:
  "special_macros (pre @ 92 # 111 # 101 # post) = special_macros pre @ 0x153 # special_macros post"
  by (simp add: special_macros_def SPECIAL_MACROS_def str_replace_split_backslash
      str_replace_split_other [where c = "0x153"])

lemma macros_OE:
  "special_macros (pre @ 92 # 79 # 69 # post) = special_macros pre @ 0x152 # special_macros post"
  by (simp add: special_macros_def SPECIAL_MACROS_def str_replace_split_backslash
      str_replace_split_other [where c = "0x152"])

lemma macros_absent:
  "\<forall>m \<in> fst ` set SPECIAL_MACROS. \<not> sublist m s \<Longrightarrow> special_macros s = s"
  by (simp add: special_macros_def SPECIAL_MACROS_def str_replace_absent)

lemma str_replace_first_kept:
  assumes "old \<noteq> []" and "hd old \<noteq> e" and "new \<noteq> []" and "hd new \<noteq> e"
  shows "prefix [e] (str_replace old new s) \<longleftrightarrow> prefix [e] s"
proof (cases s)
  case Nil
  with assms(1) show ?thesis by simp
next
  case (Cons c cs)
  show ?thesis
  proof (cases "prefix old (c # cs)")
    case True
    then have "c = hd old" using assms(1) by (cases old) auto
    with assms True Cons show ?thesis by (cases new) auto
  next
    case False
    with assms(1) Cons show ?thesis by simp
  qed
qed

lemma macros_ss:
  "special_macros (pre @ 92 # 115 # 115 # post) = special_macros pre @ 0xDF # special_macros post"
  by (simp add: special_macros_def SPECIAL_MACROS_def str_replace_split_backslash
      str_replace_split_other [where c = "0xDF"])

lemma macros_SS:
  "special_macros (pre @ 92 # 83 # 83 # post) = special_macros pre @ 0x1E9E # special_macros post"
  by (simp add: special_macros_def SPECIAL_MACROS_def str_replace_split_backslash
      str_replace_split_other [where c = "0x1E9E"])

lemma macros_ae:
  "special_macros (pre @ 92 # 97 # 101 # post) = special_macros pre @ 0xE6 # special_macros post"
  by (simp add: special_macros_def SPECIAL_MACROS_def str_replace_split_backslash
      str_replace_split_other [where c = "0xE6"])

lemma macros_AE:
  "special_macros (pre @ 92 # 65 # 69 # post) = special_macros pre @ 0xC6 # special_macros post"
  by (simp add: special_macros_def SPECIAL_MACROS_def str_replace_split_backslash
      str_replace_split_other [where c = "0xC6"])

lemma macros_aa:
  "special_macros (pre @ 92 # 97 # 97 # post) = special_macros pre @ 0xE5 # special_macros post"
  by (simp add: special_macros_def SPECIAL_MACROS_def str_replace_split_backslash
      str_replace_split_other [where c = "0xE5"])

lemma macros_AA:
  "special_macros (pre @ 92 # 65 # 65 # post) = special_macros pre @ 0xC5 # special_macros post"
  by (simp add: special_macros_def SPECIAL_MACROS_def str_replace_split_backslash
      str_replace_split_other [where c = "0xC5"])

lemma macros_l:
  "special_macros (pre @ 92 # 108 # post) = special_macros pre @ 0x142 # special_macros post"
  by (simp add: special_macros_def SPECIAL_MACROS_def str_replace_split_backslash
      str_replace_split_other [where c = "0x142"])

lemma macros_L:
  "special_macros (pre @ 92 # 76 # post) = special_macros pre @ 0x141 # special_macros post"
  by (simp add: special_macros_def SPECIAL_MACROS_def str_replace_split_backslash
      str_replace_split_other [where c = "0x141"])

lemma macros_o:
  "\<not> prefix [101] post \<Longrightarrow>
     special_macros (pre @ 92 # 111 # post) = special_macros pre @ 0xF8 # special_macros post"
  by (simp add: special_macros_def SPECIAL_MACROS_def str_replace_split_backslash
      str_replace_split_other [where c = "0xF8"] str_replace_first_kept)

lemma macros_O:
  "\<not> prefix [69] post \<Longrightarrow>
     special_macros (pre @ 92 # 79 # post) = special_macros pre @ 0xD8 # special_macros post"
  by (simp add: special_macros_def SPECIAL_MACROS_def str_replace_split_backslash
      str_replace_split_other [where c = "0xD8"] str_replace_first_kept)

lemma macros_first_match:
  assumes "find (\<lambda>(m, u). prefix m t) SPECIAL_MACROS = Some (m, u)"
  shows "special_macros (pre @ t) = special_macros pre @ u @ special_macros (drop (length m) t)"
proof -
  have o: "special_macros (pre @ 92 # 111 # post) = special_macros pre @ 0xF8 # special_macros post"
    if "\<forall>zs. post \<noteq> 101 # zs" for post
    using that by (intro macros_o) (auto simp: prefix_def)
  have O: "special_macros (pre @ 92 # 79 # post) = special_macros pre @ 0xD8 # special_macros post"
    if "\<forall>zs. post \<noteq> 69 # zs" for post
    using that by (intro macros_O) (auto simp: prefix_def)
  from assms show ?thesis
    by (auto simp: SPECIAL_MACROS_def prefix_def macros_ss macros_SS macros_ae macros_AE
        macros_oe macros_OE macros_aa macros_AA macros_l macros_L o O split: if_splits)
qed

text \<open>
  Claim C6, as the code has it. The special-macro step replaces the literal occurrences of
  the table entries, in the order of the table:
  \<^item> a text in which no entry occurs is left as it is;
  \<^item> where a text begins with an entry, in any context, it is rewritten there by the
    first entry of the table that it begins with, and the texts on either side are
    treated on their own;
  \<^item> so each of the twelve entries is replaced wherever it occurs: the ten entries that
    no other entry extends without condition, and backslash \<open>o\<close> and backslash \<open>O\<close> wherever
    no \<open>e\<close> or \<open>E\<close> follows. The ligature macros (backslash \<open>oe\<close>, backslash \<open>OE\<close>) come
    before their prefixes in the table and are never shadowed by them.
  The replacement is not bound to whole tokens: a backslash sequence that begins with an
  entry and goes on with other letters is rewritten at the entry, as backslash \<open>omega\<close>
  shows.
\<close>

theorem special_macros_literal:
  "((\<forall>m \<in> fst ` set SPECIAL_MACROS. \<not> sublist m s) \<longrightarrow> special_macros s = s)
   \<and> (find (\<lambda>(m, u). prefix m t) SPECIAL_MACROS = Some (m, u) \<longrightarrow>
        special_macros (pre @ t) = special_macros pre @ u @ special_macros (drop (length m) t))
   \<and> special_macros (pre @ 92 # map of_char ''ss'' @ post)
       = special_macros pre @ 0xDF # special_macros post
   \<and> special_macros (pre @ 92 # map of_char ''SS'' @ post)
       = special_macros pre @ 0x1E9E # special_macros post
   \<and> special_macros (pre @ 92 # map of_char ''ae'' @ post)
       = special_macros pre @ 0xE6 # special_macros post
   \<and> special_macros (pre @ 92 # map of_char ''AE'' @ post)
       = special_macros pre @ 0xC6 # special_macros post
   \<and> special_macros (pre @ 92 # map of_char ''oe'' @ post)
       = special_macros pre @ 0x153 # special_macros post
   \<and> special_macros (pre @ 92 # map of_char ''OE'' @ post)
       = special_macros pre @ 0x152 # special_macros post
   \<and> special_macros (pre @ 92 # map of_char ''aa'' @ post)
       = special_macros pre @ 0xE5 # special_macros post
   \<and> special_macros (pre @ 92 # map of_char ''AA'' @ post)
       = special_macros pre @ 0xC5 # special_macros post
   \<and> (\<not> prefix (map of_char ''e'') post \<longrightarrow>
        special_macros (pre @ 92 # map of_char ''o'' @ post)
          = special_macros pre @ 0xF8 # special_macros post)
   \<and> (\<not> prefix (map of_char ''E'') post \<longrightarrow>
        special_macros (pre @ 92 # map of_char ''O'' @ post)
          = special_macros pre @ 0xD8 # special_macros post)
   \<and> special_macros (pre @ 92 # map of_char ''l'' @ post)
       = special_macros pre @ 0x142 # special_macros post
   \<and> special_macros (pre @ 92 # map of_char ''L'' @ post)
       = special_macros pre @ 0x141 # special_macros post
   \<and> special_macros (92 # map of_char ''omega'') = 0xF8 # map of_char ''mega''"
proof -
  have "special_macros (92 # map of_char ''omega'') = 0xF8 # map of_char ''mega''"
    by (simp add: special_macros_def SPECIAL_MACROS_def)
  moreover have "find (\<lambda>(m, u). prefix m t) SPECIAL_MACROS = Some (m, u) \<longrightarrow>
        special_macros (pre @ t) = special_macros pre @ u @ special_macros (drop (length m) t)"
    using macros_first_match by blast
  moreover have "(\<forall>m \<in> fst ` set SPECIAL_MACROS. \<not> sublist m s) \<longrightarrow> special_macros s = s"
    using macros_absent by blast
  moreover have "\<not> prefix (map of_char ''e'') post \<longrightarrow>
        special_macros (pre @ 92 # map of_char ''o'' @ post)
          = special_macros pre @ 0xF8 # special_macros post"
    using macros_o [of post pre] by simp
  moreover have "\<not> prefix (map of_char ''E'') post \<longrightarrow>
        special_macros (pre @ 92 # map of_char ''O'' @ post)
          = special_macros pre @ 0xD8 # special_macros post"
    using macros_O [of post pre] by simp
  ultimately show ?thesis
    using macros_ss [of pre post] macros_SS [of pre post] macros_ae [of pre post]
      macros_AE [of pre post] macros_oe [of pre post] macros_OE [of pre post]
      macros_aa [of pre post] macros_AA [of pre post] macros_l [of pre post]
      macros_L [of pre post]
    by simp
qed

text \<open>
  A name without macros is unchanged; the ligature inside a word is replaced; backslash
  \<open>o\<close> before \<open>ren\<close> is replaced; backslash \<open>lambda\<close> is rewritten at backslash \<open>l\<close>, the first
  entry it begins with.
\<close>

theorem special_macros_literal_witness:
  "special_macros (map of_char ''J. Doe'') = map of_char ''J. Doe''
   \<and> special_macros (map of_char ''C'' @ 92 # map of_char ''oe'' @ map of_char ''uvre'')
       = map of_char ''C'' @ 0x153 # map of_char ''uvre''
   \<and> special_macros (map of_char ''S'' @ 92 # map of_char ''o'' @ map of_char ''ren'')
       = map of_char ''S'' @ 0xF8 # map of_char ''ren''
   \<and> special_macros (map of_char ''x = '' @ 92 # map of_char ''lambda'')
       = map of_char ''x = '' @ 0x142 # map of_char ''ambda''"
  using special_macros_literal [of "map of_char ''J. Doe''" "92 # map of_char ''lambda''"
      "92 # map of_char ''l''" "[0x142]" "map of_char ''x = ''" "map of_char ''ren''"]
    special_macros_literal [of "[]" "[]" "[]" "[]" "map of_char ''C''" "map of_char ''uvre''"]
  by (simp add: special_macros_def SPECIAL_MACROS_def sublist_Cons_right)

text \<open>
  Claim C6 as stated fails on a sequence that only begins with a table entry: backslash
  \<open>omega\<close> becomes the o with stroke followed by \<open>mega\<close>. (The result holds no
  combining mark, so NFC leaves it as it is; \<open>id\<close> stands for it.)
\<close>

theorem special_macros_prefix_counterexample:
  "special_macros (92 # map of_char ''omega'') = 0xF8 # map of_char ''mega''
   \<and> latex_to_unicode id (92 # map of_char ''omega'') = 0xF8 # map of_char ''mega''
   \<and> latex_to_unicode id (92 # map of_char ''omega'') \<noteq> 92 # map of_char ''omega''"
  by (simp add: latex_to_unicode_def special_macros_def SPECIAL_MACROS_def
      strip_braces_def dash_quotes_def DASH_QUOTES_def)

section \<open>Unknown accent codes\<close>

lemma latex_to_unicode_steps:
  "text \<noteq> [] \<Longrightarrow> latex_to_unicode nfc text = nfc (latex_steps text)"
  by (simp add: latex_to_unicode_def latex_steps_def)

lemma sub_braced_skip1: "b \<noteq> 92 \<Longrightarrow> sub_accent_braced (b # s) = b # sub_accent_braced s"
  by (cases "b # s" rule: sub_accent_braced.cases) auto

lemma sub_braced_skip2:
  "\<not> is_accent_code a \<Longrightarrow> sub_accent_braced (b # a # s) = b # sub_accent_braced (a # s)"
  by (cases "b # a # s" rule: sub_accent_braced.cases) auto

lemma sub_braced_skip3:
  "l \<noteq> 123 \<Longrightarrow> sub_accent_braced (b # a # l # s) = b # sub_accent_braced (a # l # s)"
  by (cases "b # a # l # s" rule: sub_accent_braced.cases) auto

lemma sub_braced_skip4:
  "\<not> is_ascii_letter c \<Longrightarrow>
     sub_accent_braced (b # a # l # c # s) = b # sub_accent_braced (a # l # c # s)"
  by (cases "b # a # l # c # s" rule: sub_accent_braced.cases) auto

lemma sub_unbraced_skip1:
  "b \<noteq> 92 \<Longrightarrow> sub_accent_unbraced (b # s) = b # sub_accent_unbraced s"
  by (cases "b # s" rule: sub_accent_unbraced.cases) auto

lemma sub_unbraced_skip2:
  "\<not> is_accent_code a \<Longrightarrow> sub_accent_unbraced (b # a # s) = b # sub_accent_unbraced (a # s)"
  by (cases "b # a # s" rule: sub_accent_unbraced.cases) auto

lemma not_accent_92: "\<not> is_accent_code 92" by (simp add: is_accent_code_def)
lemma not_letter_92: "\<not> is_ascii_letter 92" by (simp add: is_ascii_letter_def)

lemma sub_braced_split:
  "sub_accent_braced (P @ 92 # R) = sub_accent_braced P @ sub_accent_braced (92 # R)"
proof (induction P rule: sub_accent_braced.induct)
  case (1 b a l c r rest)
  then show ?case by simp
qed (simp_all add: sub_braced_skip2 sub_braced_skip3 sub_braced_skip4 not_accent_92
       not_letter_92)

lemma sub_unbraced_split:
  "sub_accent_unbraced (P @ 92 # R) = sub_accent_unbraced P @ sub_accent_unbraced (92 # R)"
proof (induction P rule: sub_accent_unbraced.induct)
  case (1 b a c rest)
  then show ?case by simp
qed (simp_all add: sub_unbraced_skip2 not_accent_92 not_letter_92)

lemma str_replace_split_one:
  "str_replace [x] new (s1 @ s2) = str_replace [x] new s1 @ str_replace [x] new s2"
proof (cases s2)
  case Nil
  then show ?thesis by simp
next
  case (Cons c cs)
  then show ?thesis using str_replace_split [of "[x]" c new s1 cs] by simp
qed

lemma macro_shape:
  assumes "m \<in> fst ` set SPECIAL_MACROS"
  shows "m \<noteq> [] \<and> hd m = 92 \<and> 92 \<notin> set (tl m) \<and> length m \<le> 3"
  using assms by (auto simp: SPECIAL_MACROS_def)

lemma macro_not_at:
  assumes "m \<in> fst ` set SPECIAL_MACROS" and "x \<noteq> 92"
  shows "\<not> prefix m (x # s)"
proof (cases m)
  case Nil
  with macro_shape [OF assms(1)] show ?thesis by simp
next
  case (Cons a m')
  with macro_shape [OF assms(1)] have "a = 92" by simp
  with Cons assms(2) show ?thesis by simp
qed

lemma macro_not_longer:
  assumes "m \<in> fst ` set SPECIAL_MACROS" and "\<not> prefix m [x, y, z]"
  shows "\<not> prefix m (x # y # z # s)"
proof
  assume "prefix m (x # y # z # s)"
  moreover have "prefix [x, y, z] (x # y # z # s)" by simp
  moreover have "length m \<le> length [x, y, z]" using macro_shape [OF assms(1)] by simp
  ultimately have "prefix m [x, y, z]" by (rule prefix_length_prefix)
  with assms(2) show False by simp
qed

lemma macros_fold_around:
  assumes "\<And>m u P' Q'. m \<in> fst ` set SPECIAL_MACROS \<Longrightarrow>
             str_replace m u (P' @ mid @ Q') = str_replace m u P' @ mid @ str_replace m u Q'"
  shows "special_macros (P @ mid @ Q) = special_macros P @ mid @ special_macros Q"
proof -
  have "foldl (\<lambda>s (macro, uni). str_replace macro uni s) (P @ mid @ Q) ms
          = foldl (\<lambda>s (macro, uni). str_replace macro uni s) P ms @ mid
            @ foldl (\<lambda>s (macro, uni). str_replace macro uni s) Q ms"
    if "set ms \<subseteq> set SPECIAL_MACROS" for ms
    using that
  proof (induction ms arbitrary: P Q)
    case Nil
    then show ?case by simp
  next
    case (Cons a ms)
    obtain m u where a: "a = (m, u)" by (cases a)
    with Cons.prems have "m \<in> fst ` set SPECIAL_MACROS" by force
    then have "str_replace m u (P @ mid @ Q) = str_replace m u P @ mid @ str_replace m u Q"
      by (rule assms)
    with Cons.IH [of "str_replace m u P" "str_replace m u Q"] Cons.prems a
    show ?case by simp
  qed
  then show ?thesis by (simp add: special_macros_def)
qed

lemma macros_around_unbraced:
  assumes "c \<noteq> 92" and "l \<noteq> 92"
    and "\<forall>m \<in> fst ` set SPECIAL_MACROS. \<not> prefix m [92, c, l]"
  shows "special_macros (P @ [92, c, l] @ Q) = special_macros P @ [92, c, l] @ special_macros Q"
proof (rule macros_fold_around)
  fix m u P' Q'
  assume m: "m \<in> fst ` set SPECIAL_MACROS"
  from macro_shape [OF m] have sh: "m \<noteq> []" "92 \<notin> set (tl m)" by simp_all
  from m assms(3) have "\<not> prefix m [92, c, l]" by blast
  then have np: "\<not> prefix m (92 # c # l # Q')"
    by (rule macro_not_longer [OF m])
  have nc: "\<not> prefix m (c # l # Q')" "\<not> prefix m (l # Q')"
    by (rule macro_not_at [OF m assms(1)], rule macro_not_at [OF m assms(2)])
  have "str_replace m u (P' @ 92 # c # l # Q')
          = str_replace m u P' @ str_replace m u (92 # c # l # Q')"
    using sh by (intro str_replace_split_backslash)
  also have "str_replace m u (92 # c # l # Q') = 92 # c # l # str_replace m u Q'"
    using sh(1) np nc by simp
  finally show "str_replace m u (P' @ [92, c, l] @ Q')
                  = str_replace m u P' @ [92, c, l] @ str_replace m u Q'"
    by simp
qed

lemma macros_around_braced:
  assumes "c \<noteq> 92" and "l \<noteq> 92"
    and "\<forall>m \<in> fst ` set SPECIAL_MACROS. \<not> prefix m [92, c, 123]"
  shows "special_macros (P @ [92, c, 123, l, 125] @ Q)
           = special_macros P @ [92, c, 123, l, 125] @ special_macros Q"
proof (rule macros_fold_around)
  fix m u P' Q'
  assume m: "m \<in> fst ` set SPECIAL_MACROS"
  from macro_shape [OF m] have sh: "m \<noteq> []" "92 \<notin> set (tl m)" by simp_all
  from m assms(3) have "\<not> prefix m [92, c, 123]" by blast
  then have np: "\<not> prefix m (92 # c # 123 # l # 125 # Q')"
    by (rule macro_not_longer [OF m])
  have nc: "\<not> prefix m (c # 123 # l # 125 # Q')" "\<not> prefix m (123 # l # 125 # Q')"
    "\<not> prefix m (l # 125 # Q')" "\<not> prefix m (125 # Q')"
    using macro_not_at [OF m assms(1)] macro_not_at [OF m assms(2)]
      macro_not_at [OF m, of 123] macro_not_at [OF m, of 125]
    by simp_all
  have "str_replace m u (P' @ 92 # c # 123 # l # 125 # Q')
          = str_replace m u P' @ str_replace m u (92 # c # 123 # l # 125 # Q')"
    using sh by (intro str_replace_split_backslash)
  also have "str_replace m u (92 # c # 123 # l # 125 # Q')
               = 92 # c # 123 # l # 125 # str_replace m u Q'"
    using sh(1) np nc by simp
  finally show "str_replace m u (P' @ [92, c, 123, l, 125] @ Q')
                  = str_replace m u P' @ [92, c, 123, l, 125] @ str_replace m u Q'"
    by simp
qed

lemma braced_pass_around:
  assumes "\<not> is_accent_code c" and "c \<noteq> 92" and "l \<noteq> 92"
  shows "sub_accent_braced (P @ 92 # c # l # Q) = sub_accent_braced P @ 92 # c # l # sub_accent_braced Q"
    and "sub_accent_braced (P @ 92 # c # 123 # l # 125 # Q)
           = sub_accent_braced P @ 92 # c # 123 # l # 125 # sub_accent_braced Q"
  using assms by (simp_all add: sub_braced_split sub_braced_skip1 sub_braced_skip2)

lemma unbraced_pass_around:
  assumes "\<not> is_accent_code c" and "c \<noteq> 92" and "l \<noteq> 92"
  shows "sub_accent_unbraced (P @ 92 # c # l # Q)
           = sub_accent_unbraced P @ 92 # c # l # sub_accent_unbraced Q"
    and "sub_accent_unbraced (P @ 92 # c # 123 # l # 125 # Q)
           = sub_accent_unbraced P @ 92 # c # 123 # l # 125 # sub_accent_unbraced Q"
  using assms by (simp_all add: sub_unbraced_split sub_unbraced_skip1 sub_unbraced_skip2)

lemma strip_braces_around:
  assumes "c \<noteq> 123" and "c \<noteq> 125" and "l \<noteq> 123" and "l \<noteq> 125"
  shows "strip_braces (P @ 92 # c # l # Q) = strip_braces P @ 92 # c # l # strip_braces Q"
    and "strip_braces (P @ 92 # c # 123 # l # 125 # Q)
           = strip_braces P @ 92 # c # l # strip_braces Q"
  using assms by (simp_all add: strip_braces_def str_replace_split_one)

lemma dash_quotes_around:
  assumes "l \<noteq> 45" and "l \<noteq> 96" and "l \<noteq> 39"
  shows "dash_quotes (P @ 92 # c # l # Q) = dash_quotes P @ 92 # c # l # dash_quotes Q"
  using assms
  by (simp add: dash_quotes_def DASH_QUOTES_def str_replace_split_other [where c = 92])

lemma letter_facts:
  assumes "is_ascii_letter l"
  shows "l \<noteq> 92" "l \<noteq> 123" "l \<noteq> 125" "l \<noteq> 45" "l \<noteq> 96" "l \<noteq> 39"
  using assms by (auto simp: is_ascii_letter_def)

lemma steps_around_unbraced:
  assumes "\<not> is_accent_code c" and "is_ascii_letter l" and "c \<notin> {92, 123, 125}"
    and "\<forall>m \<in> fst ` set SPECIAL_MACROS. \<not> prefix m [92, c, l]"
  shows "latex_steps (pre @ [92, c, l] @ post) = latex_steps pre @ [92, c, l] @ latex_steps post"
proof -
  note l = letter_facts [OF assms(2)]
  from assms(3) have c: "c \<noteq> 92" "c \<noteq> 123" "c \<noteq> 125" by simp_all
  have "special_macros (pre @ [92, c, l] @ post)
          = special_macros pre @ 92 # c # l # special_macros post"
    using macros_around_unbraced [OF c(1) l(1) assms(4)] by simp
  then show ?thesis
    by (simp add: latex_steps_def braced_pass_around(1) [OF assms(1) c(1) l(1)]
        unbraced_pass_around(1) [OF assms(1) c(1) l(1)]
        strip_braces_around(1) [OF c(2) c(3) l(2) l(3)]
        dash_quotes_around [OF l(4) l(5) l(6)]
        del: sub_accent_braced.simps sub_accent_unbraced.simps str_replace.simps)
qed

lemma steps_around_braced:
  assumes "\<not> is_accent_code c" and "is_ascii_letter l" and "c \<notin> {92, 123, 125}"
    and "\<forall>m \<in> fst ` set SPECIAL_MACROS. \<not> prefix m [92, c, 123]"
  shows "latex_steps (pre @ [92, c, 123, l, 125] @ post)
           = latex_steps pre @ [92, c, l] @ latex_steps post"
proof -
  note l = letter_facts [OF assms(2)]
  from assms(3) have c: "c \<noteq> 92" "c \<noteq> 123" "c \<noteq> 125" by simp_all
  have "special_macros (pre @ [92, c, 123, l, 125] @ post)
          = special_macros pre @ 92 # c # 123 # l # 125 # special_macros post"
    using macros_around_braced [OF c(1) l(1) assms(4)] by simp
  then show ?thesis
    by (simp add: latex_steps_def braced_pass_around(2) [OF assms(1) c(1) l(1)]
        unbraced_pass_around(2) [OF assms(1) c(1) l(1)]
        strip_braces_around(2) [OF c(2) c(3) l(2) l(3)]
        dash_quotes_around [OF l(4) l(5) l(6)]
        del: sub_accent_braced.simps sub_accent_unbraced.simps str_replace.simps)
qed

text \<open>
  Claim C7, as the code has it. Take, anywhere in a text, a backslash, a character that
  is not an accent code of the supported set and not a backslash or a brace, and an
  ASCII letter, the letter bare or in braces, such that no special macro begins at the
  backslash. Neither accent pattern matches there, and every step before NFC leaves the
  backslash, the code and the letter where they are, between what the steps make of the
  text before and of the text after; of the braced form the braces are removed by the
  brace-stripping step like any others. The output is what NFC makes of that text, so
  the sequence is a literal part of the output whenever NFC has nothing to change in
  it, as in any ASCII text. (NFC is the library's: it may replace a code outside ASCII
  by its canonical equivalent, or join the letter with a combining mark that follows.)
\<close>

theorem unknown_accent_code_kept:
  assumes "\<not> is_accent_code c" and "is_ascii_letter l" and "c \<notin> {92, 123, 125}"
  shows "sub_accent_braced [92, c, 123, l, 125] = [92, c, 123, l, 125]
       \<and> sub_accent_unbraced [92, c, l] = [92, c, l]
       \<and> ((\<forall>m \<in> fst ` set SPECIAL_MACROS. \<not> prefix m [92, c, l]) \<longrightarrow>
            latex_steps (pre @ [92, c, l] @ post)
              = latex_steps pre @ [92, c, l] @ latex_steps post
          \<and> latex_to_unicode nfc (pre @ [92, c, l] @ post)
              = nfc (latex_steps pre @ [92, c, l] @ latex_steps post)
          \<and> (nfc (latex_steps pre @ [92, c, l] @ latex_steps post)
                 = latex_steps pre @ [92, c, l] @ latex_steps post \<longrightarrow>
               sublist [92, c, l] (latex_to_unicode nfc (pre @ [92, c, l] @ post))))
       \<and> ((\<forall>m \<in> fst ` set SPECIAL_MACROS. \<not> prefix m [92, c, 123]) \<longrightarrow>
            latex_steps (pre @ [92, c, 123, l, 125] @ post)
              = latex_steps pre @ [92, c, l] @ latex_steps post
          \<and> latex_to_unicode nfc (pre @ [92, c, 123, l, 125] @ post)
              = nfc (latex_steps pre @ [92, c, l] @ latex_steps post)
          \<and> (nfc (latex_steps pre @ [92, c, l] @ latex_steps post)
                 = latex_steps pre @ [92, c, l] @ latex_steps post \<longrightarrow>
               sublist [92, c, l] (latex_to_unicode nfc (pre @ [92, c, 123, l, 125] @ post))))"
proof (intro conjI impI)
  show "sub_accent_braced [92, c, 123, l, 125] = [92, c, 123, l, 125]"
    using assms(1) by simp
  show "sub_accent_unbraced [92, c, l] = [92, c, l]"
    using assms(1) by simp
next
  assume no: "\<forall>m \<in> fst ` set SPECIAL_MACROS. \<not> prefix m [92, c, l]"
  show s: "latex_steps (pre @ [92, c, l] @ post)
             = latex_steps pre @ [92, c, l] @ latex_steps post"
    using assms no by (rule steps_around_unbraced)
  show o: "latex_to_unicode nfc (pre @ [92, c, l] @ post)
             = nfc (latex_steps pre @ [92, c, l] @ latex_steps post)"
    using s latex_to_unicode_steps [of "pre @ [92, c, l] @ post" nfc] by simp
  show "sublist [92, c, l] (latex_to_unicode nfc (pre @ [92, c, l] @ post))"
    if "nfc (latex_steps pre @ [92, c, l] @ latex_steps post)
          = latex_steps pre @ [92, c, l] @ latex_steps post"
    unfolding o that by (rule sublist_appendI)
next
  assume no: "\<forall>m \<in> fst ` set SPECIAL_MACROS. \<not> prefix m [92, c, 123]"
  show s: "latex_steps (pre @ [92, c, 123, l, 125] @ post)
             = latex_steps pre @ [92, c, l] @ latex_steps post"
    using assms no by (rule steps_around_braced)
  show o: "latex_to_unicode nfc (pre @ [92, c, 123, l, 125] @ post)
             = nfc (latex_steps pre @ [92, c, l] @ latex_steps post)"
    using s latex_to_unicode_steps [of "pre @ [92, c, 123, l, 125] @ post" nfc] by simp
  show "sublist [92, c, l] (latex_to_unicode nfc (pre @ [92, c, 123, l, 125] @ post))"
    if "nfc (latex_steps pre @ [92, c, l] @ latex_steps post)
          = latex_steps pre @ [92, c, l] @ latex_steps post"
    unfolding o that by (rule sublist_appendI)
qed

text \<open>
  The tie accent (code \<open>t\<close>, not in the table) on the letter A, between other words, in
  both forms.
\<close>

theorem unknown_accent_code_kept_witness:
  "latex_to_unicode id (map of_char ''a '' @ 92 # map of_char ''tA'' @ map of_char '' b'')
     = map of_char ''a '' @ 92 # map of_char ''tA'' @ map of_char '' b''
   \<and> latex_to_unicode id (map of_char ''a '' @ 92 # map of_char ''t{A}'' @ map of_char '' b'')
     = map of_char ''a '' @ 92 # map of_char ''tA'' @ map of_char '' b''
   \<and> sublist (92 # map of_char ''tA'')
        (latex_to_unicode id (map of_char ''a '' @ 92 # map of_char ''t{A}'' @ map of_char '' b''))"
  using unknown_accent_code_kept [of 116 65 "map of_char ''a ''" "map of_char '' b''" id]
  by (simp add: is_accent_code_def is_ascii_letter_def SPECIAL_MACROS_def latex_steps_def
      special_macros_def strip_braces_def dash_quotes_def DASH_QUOTES_def sublist_Cons_right)

text \<open>
  Claim C7 as stated fails for a code that begins a special macro: \<open>o\<close> is not in the
  supported set, and backslash \<open>o\<close> before a letter is rewritten by the special-macro
  step, so the sequence is not in the output. (The result is fixed by NFC; \<open>id\<close> stands for
  it.)
\<close>

theorem unknown_accent_code_counterexample:
  "\<not> is_accent_code 111
   \<and> latex_to_unicode id (92 # map of_char ''oa'') = 0xF8 # map of_char ''a''
   \<and> latex_to_unicode id (92 # map of_char ''oa'') \<noteq> 92 # map of_char ''oa''
   \<and> \<not> sublist (92 # map of_char ''oa'') (latex_to_unicode id (92 # map of_char ''oa''))"
  by (simp add: latex_to_unicode_def special_macros_def SPECIAL_MACROS_def
      strip_braces_def dash_quotes_def DASH_QUOTES_def is_accent_code_def sublist_Cons_right)

text \<open>
  Why the code must not be a backslash: after a backslash, the pair of a backslash and
  the letter \<open>c\<close> is the cedilla command for the letter that follows.
\<close>

lemma backslash_as_code_example:
  "latex_to_unicode id ([92, 92] @ map of_char ''ca'') = [92, 97, 0x327]"
  by (simp add: latex_to_unicode_def special_macros_def SPECIAL_MACROS_def
      strip_braces_def dash_quotes_def DASH_QUOTES_def is_accent_code_def is_ascii_letter_def
      accent_braced_def ACCENT_COMBINING_def)

section \<open>The error boundary of \<open>main\<close>\<close>

lemma except_clause_printed:
  "print_error env (error_line e) = None \<Longrightarrow>
     except_clause env e out = \<lparr>printed = [error_line e], escaped = None, output_after = out\<rparr>"
  by (simp add: except_clause_def)

lemma except_clause_output: "output_after (except_clause env e out) = out"
  by (simp add: except_clause_def split: option.splits)

lemma except_clause_escaped:
  "escaped (except_clause env e out) = print_error env (error_line e)
   \<and> (printed (except_clause env e out) = [] \<longleftrightarrow> print_error env (error_line e) \<noteq> None)"
  by (simp add: except_clause_def split: option.splits)

text \<open>
  Claim C9, as the code has it. Whatever statement of the \<open>try\<close> block raises first
  (reading the input, parsing, building the lines, reading the template, opening the
  output, writing it, printing the success line), the \<open>except\<close> clause is entered with
  that exception and with the output file as the statements before left it: untouched
  up to and including a failed \<open>open\<close>, emptied and partly written after a failed write,
  complete after a failed \<open>print\<close>. The clause prints the error line made from the
  exception; when that line can be printed it is the only line printed and the run ends
  without an exception. More generally, on a standard output that refuses no line, no
  exception leaves \<open>main\<close> and exactly one line is printed, the success line or an error
  line. An exception leaves \<open>main\<close> only when the \<open>print\<close> of the \<open>except\<close> clause raises it,
  and then nothing has been printed. The page is built in memory first: the output file
  differs from what it was before the run only if input, parser, rendering and template
  succeeded and the file could be opened.
\<close>

theorem main_error_boundary:
  "(bib_input env = Inl e \<longrightarrow>
      main nfc to_int load env = except_clause env e (output_before env))
   \<and> (bib_input env = Inr bibfile \<and> load bibfile = Inl e \<longrightarrow>
      main nfc to_int load env = except_clause env e (output_before env))
   \<and> (bib_input env = Inr bibfile \<and> load bibfile = Inr entries \<and> render_error env = Some e \<longrightarrow>
      main nfc to_int load env = except_clause env e (output_before env))
   \<and> (bib_input env = Inr bibfile \<and> load bibfile = Inr entries \<and> render_error env = None
        \<and> template_input env = Inl e \<longrightarrow>
      main nfc to_int load env = except_clause env e (output_before env))
   \<and> (bib_input env = Inr bibfile \<and> load bibfile = Inr entries \<and> render_error env = None
        \<and> template_input env = Inr template \<and> output_open_error env = Some e \<longrightarrow>
      main nfc to_int load env = except_clause env e (output_before env))
   \<and> (bib_input env = Inr bibfile \<and> load bibfile = Inr entries \<and> render_error env = None
        \<and> template_input env = Inr template \<and> output_open_error env = None
        \<and> output_write_error env = Some (e, k) \<longrightarrow>
      main nfc to_int load env
        = except_clause env e
            (Some (take k (str_replace PLACEHOLDER (generated_content nfc to_int entries) template))))
   \<and> (bib_input env = Inr bibfile \<and> load bibfile = Inr entries \<and> render_error env = None
        \<and> template_input env = Inr template \<and> output_open_error env = None
        \<and> output_write_error env = None \<and> print_error env success_line = Some e \<longrightarrow>
      main nfc to_int load env
        = except_clause env e
            (Some (str_replace PLACEHOLDER (generated_content nfc to_int entries) template)))
   \<and> (bib_input env = Inr bibfile \<and> load bibfile = Inr entries \<and> render_error env = None
        \<and> template_input env = Inr template \<and> output_open_error env = None
        \<and> output_write_error env = None \<and> print_error env success_line = None \<longrightarrow>
      main nfc to_int load env
        = \<lparr>printed = [success_line], escaped = None,
           output_after = Some (str_replace PLACEHOLDER
                                  (generated_content nfc to_int entries) template)\<rparr>)
   \<and> (print_error env (error_line e) = None \<longrightarrow>
        except_clause env e out
          = \<lparr>printed = [error_line e], escaped = None, output_after = out\<rparr>)
   \<and> ((\<forall>line. print_error env line = None) \<longrightarrow>
        escaped (main nfc to_int load env) = None
        \<and> (printed (main nfc to_int load env) = [success_line]
           \<or> (\<exists>e. printed (main nfc to_int load env) = [error_line e])))
   \<and> (escaped (main nfc to_int load env) \<noteq> None \<longrightarrow>
        printed (main nfc to_int load env) = []
        \<and> (\<exists>e. print_error env (error_line e) = escaped (main nfc to_int load env)))
   \<and> (output_after (main nfc to_int load env) \<noteq> output_before env \<longrightarrow>
        (\<exists>bibfile entries template.
           bib_input env = Inr bibfile \<and> load bibfile = Inr entries \<and> render_error env = None
           \<and> template_input env = Inr template \<and> output_open_error env = None))"
proof -
  let ?r = "main nfc to_int load env"
  have stages: "?r = \<lparr>printed = [success_line], escaped = None, output_after = output_after ?r\<rparr>
                \<or> (\<exists>e out. ?r = except_clause env e out)"
    by (auto simp: main_def Let_def split: sum.splits option.splits prod.splits)
  have ok: "escaped ?r = None
        \<and> (printed ?r = [success_line] \<or> (\<exists>e. printed ?r = [error_line e]))"
    if "\<forall>line. print_error env line = None"
  proof -
    from stages show ?thesis
    proof
      assume "?r = \<lparr>printed = [success_line], escaped = None, output_after = output_after ?r\<rparr>"
      then have "printed ?r = [success_line]" "escaped ?r = None"
        by (metis outcome.select_convs(1), metis outcome.select_convs(2))
      then show ?thesis by simp
    next
      assume "\<exists>e out. ?r = except_clause env e out"
      then obtain e out where "?r = except_clause env e out" by blast
      with that show ?thesis by (auto simp: except_clause_def)
    qed
  qed
  have esc: "printed ?r = [] \<and> (\<exists>e. print_error env (error_line e) = escaped ?r)"
    if "escaped ?r \<noteq> None"
  proof -
    from stages show ?thesis
    proof
      assume "?r = \<lparr>printed = [success_line], escaped = None, output_after = output_after ?r\<rparr>"
      then have "escaped ?r = None" by (metis outcome.select_convs(2))
      with that show ?thesis by simp
    next
      assume "\<exists>e out. ?r = except_clause env e out"
      then obtain e out where r: "?r = except_clause env e out" by blast
      with that show ?thesis using except_clause_escaped [of env e out] by auto
    qed
  qed
  have touched: "\<exists>bibfile entries template.
           bib_input env = Inr bibfile \<and> load bibfile = Inr entries \<and> render_error env = None
           \<and> template_input env = Inr template \<and> output_open_error env = None"
    if "output_after ?r \<noteq> output_before env"
    using that
    by (auto simp: main_def Let_def except_clause_output split: sum.splits option.splits prod.splits)
  have each: "bib_input env = Inl e \<longrightarrow> ?r = except_clause env e (output_before env)"
    "bib_input env = Inr bibfile \<and> load bibfile = Inl e \<longrightarrow>
       ?r = except_clause env e (output_before env)"
    "bib_input env = Inr bibfile \<and> load bibfile = Inr entries \<and> render_error env = Some e \<longrightarrow>
       ?r = except_clause env e (output_before env)"
    "bib_input env = Inr bibfile \<and> load bibfile = Inr entries \<and> render_error env = None
        \<and> template_input env = Inl e \<longrightarrow> ?r = except_clause env e (output_before env)"
    "bib_input env = Inr bibfile \<and> load bibfile = Inr entries \<and> render_error env = None
        \<and> template_input env = Inr template \<and> output_open_error env = Some e \<longrightarrow>
      ?r = except_clause env e (output_before env)"
    "bib_input env = Inr bibfile \<and> load bibfile = Inr entries \<and> render_error env = None
        \<and> template_input env = Inr template \<and> output_open_error env = None
        \<and> output_write_error env = Some (e, k) \<longrightarrow>
      ?r = except_clause env e
            (Some (take k (str_replace PLACEHOLDER (generated_content nfc to_int entries) template)))"
    "bib_input env = Inr bibfile \<and> load bibfile = Inr entries \<and> render_error env = None
        \<and> template_input env = Inr template \<and> output_open_error env = None
        \<and> output_write_error env = None \<and> print_error env success_line = Some e \<longrightarrow>
      ?r = except_clause env e
            (Some (str_replace PLACEHOLDER (generated_content nfc to_int entries) template))"
    "bib_input env = Inr bibfile \<and> load bibfile = Inr entries \<and> render_error env = None
        \<and> template_input env = Inr template \<and> output_open_error env = None
        \<and> output_write_error env = None \<and> print_error env success_line = None \<longrightarrow>
      ?r = \<lparr>printed = [success_line], escaped = None,
           output_after = Some (str_replace PLACEHOLDER
                                  (generated_content nfc to_int entries) template)\<rparr>"
    by (simp_all add: main_def Let_def)
  show ?thesis
    apply (intro conjI)
    subgoal by (rule each(1))
    subgoal by (rule each(2))
    subgoal by (rule each(3))
    subgoal by (rule each(4))
    subgoal by (rule each(5))
    subgoal by (rule each(6))
    subgoal by (rule each(7))
    subgoal by (rule each(8))
    subgoal by (rule impI) (rule except_clause_printed)
    subgoal using ok by blast
    subgoal using esc by blast
    subgoal using touched by blast
    done
qed

text \<open>
  A missing template: the error line is printed and the old page is still there. With the
  template in place and an empty bibliography the page is written and the success line
  printed.
\<close>

theorem main_error_boundary_witness:
  "main id (\<lambda>y. None) (\<lambda>b. Inr [])
     \<lparr>bib_input = Inr [], render_error = None,
      template_input = Inl (map of_char ''No such file''),
      output_open_error = None, output_write_error = None,
      output_before = Some (map of_char ''old page''), print_error = (\<lambda>line. None)\<rparr>
     = \<lparr>printed = [error_line (map of_char ''No such file'')], escaped = None,
        output_after = Some (map of_char ''old page'')\<rparr>
   \<and> main id (\<lambda>y. None) (\<lambda>b. Inr [])
     \<lparr>bib_input = Inr [], render_error = None,
      template_input = Inr (map of_char ''<p>PLACEHOLDER</p>''),
      output_open_error = None, output_write_error = None,
      output_before = Some (map of_char ''old page''), print_error = (\<lambda>line. None)\<rparr>
     = \<lparr>printed = [success_line], escaped = None,
        output_after = Some (map of_char ''<p></p>'')\<rparr>"
  using main_error_boundary [of
      "\<lparr>bib_input = Inr [], render_error = None,
      template_input = Inl (map of_char ''No such file''),
      output_open_error = None, output_write_error = None,
      output_before = Some (map of_char ''old page''), print_error = (\<lambda>line. None)\<rparr>"
      "map of_char ''No such file''" id "\<lambda>y. None" "\<lambda>b. Inr []" "[]" "[]"]
    main_error_boundary [of
      "\<lparr>bib_input = Inr [], render_error = None,
      template_input = Inr (map of_char ''<p>PLACEHOLDER</p>''),
      output_open_error = None, output_write_error = None,
      output_before = Some (map of_char ''old page''), print_error = (\<lambda>line. None)\<rparr>"
      "[]" id "\<lambda>y. None" "\<lambda>b. Inr []" "[]" "[]" "map of_char ''<p>PLACEHOLDER</p>''"]
  by (simp add: generated_content_def html_lines_def publication_lists_def
      grouped_by_year_def sorted_years_def PLACEHOLDER_def)

text \<open>
  Claim C9 as stated fails in two ways. First, \<open>open(OUTPUT_FILE, 'w')\<close> empties the file
  before anything is written: when the write then raises after three code points, the
  error is caught and printed, and the destination holds those three code points in
  place of the old page. Second, when the template is missing and the standard output
  refuses every line with a code point outside ASCII, the \<open>print\<close> of the \<open>except\<close> clause
  raises: no message is printed and the exception leaves \<open>main\<close>.
\<close>

theorem main_failure_counterexample:
  "main id (\<lambda>y. None) (\<lambda>b. Inr [])
     \<lparr>bib_input = Inr [], render_error = None,
      template_input = Inr (map of_char ''<p>PLACEHOLDER</p>''),
      output_open_error = None,
      output_write_error = Some (map of_char ''No space left on device'', 3),
      output_before = Some (map of_char ''old page''), print_error = (\<lambda>line. None)\<rparr>
     = \<lparr>printed = [error_line (map of_char ''No space left on device'')], escaped = None,
        output_after = Some (map of_char ''<p>'')\<rparr>
   \<and> main id (\<lambda>y. None) (\<lambda>b. Inr [])
     \<lparr>bib_input = Inr [], render_error = None,
      template_input = Inl (map of_char ''No such file''),
      output_open_error = None, output_write_error = None,
      output_before = Some (map of_char ''old page''),
      print_error = (\<lambda>line. if list_ex (\<lambda>c. 128 \<le> c) line
                             then Some (map of_char ''UnicodeEncodeError'') else None)\<rparr>
     = \<lparr>printed = [], escaped = Some (map of_char ''UnicodeEncodeError''),
        output_after = Some (map of_char ''old page'')\<rparr>"
  by (simp add: main_def except_clause_def error_line_def generated_content_def html_lines_def
      publication_lists_def grouped_by_year_def sorted_years_def PLACEHOLDER_def)

end
